theory Spec2Isabelle
  imports Complex_Main "HOL-Library.AList" "HOL-Library.Word"
begin

section \<open>Relay: the short-code registry (relay/index.ts)\<close>

text \<open>
  \<^verbatim>\<open>const CODE_EXPIRY_MS = 5 * 60 * 1000\<close>. Times are the millisecond values of
  \<^verbatim>\<open>Date.now()\<close>, passed in by the caller of each operation.
\<close>

definition CODE_EXPIRY_MS :: int where
  "CODE_EXPIRY_MS = 5 * 60 * 1000"

record CodeEntry =
  address :: string
  createdAt :: int

text \<open>
  \<^verbatim>\<open>codeRegistry\<close> is a JavaScript \<^verbatim>\<open>Map\<close>: an association list in insertion order.
  \<^verbatim>\<open>get\<close> is \<^const>\<open>map_of\<close>, \<^verbatim>\<open>set\<close> is \<^const>\<open>AList.update\<close>, \<^verbatim>\<open>delete\<close> is
  \<^const>\<open>AList.delete\<close>.
\<close>

type_synonym registry = "(string \<times> CodeEntry) list"

definition has :: "registry \<Rightarrow> string \<Rightarrow> bool" where
  "has reg code = (map_of reg code \<noteq> None)"

text \<open>\<^verbatim>\<open>Number.prototype.toString()\<close> on a non-negative integer: its decimal digits.\<close>

definition digit :: "nat \<Rightarrow> char" where
  "digit d = char_of (48 + d)"

fun toString :: "nat \<Rightarrow> string" where
  "toString n = (if n < 10 then [digit n] else toString (n div 10) @ [digit (n mod 10)])"

declare toString.simps [simp del]

text \<open>
  \<^verbatim>\<open>Math.floor(100000 + Math.random() * 900000)\<close>, with the value of \<^verbatim>\<open>Math.random()\<close>
  given as a rational \<open>x\<close> (the platform promises \<open>0 \<le> x < 1\<close>); the arithmetic is exact,
  the rounding of doubles is not modelled.
\<close>

definition randomNumber :: "rat \<Rightarrow> nat" where
  "randomNumber x = nat \<lfloor>100000 + x * 900000\<rfloor>"

text \<open>
  \<^verbatim>\<open>generateCode\<close>: \<^verbatim>\<open>do { code = ... } while (codeRegistry.has(code))\<close>. The list holds
  the successive values of \<^verbatim>\<open>Math.random()\<close>; the loop has not returned when they are
  used up (\<open>None\<close>).
\<close>

fun generateCode :: "registry \<Rightarrow> rat list \<Rightarrow> string option" where
  "generateCode reg [] = None"
| "generateCode reg (x # xs) =
     (let code = toString (randomNumber x)
      in if has reg code then generateCode reg xs else Some code)"

datatype reply =
    Code string            \<comment> \<open>200 \<^verbatim>\<open>{ code }\<close>\<close>
  | Address string         \<comment> \<open>200 \<^verbatim>\<open>{ address }\<close>\<close>
  | Failure nat string     \<comment> \<open>status and \<^verbatim>\<open>{ error }\<close>\<close>

text \<open>
  \<^verbatim>\<open>POST /code\<close> after the body has been parsed: \<open>None\<close> when \<^verbatim>\<open>JSON.parse\<close> throws,
  \<open>Some a\<close> for a body whose \<^verbatim>\<open>address\<close> is the string \<open>a\<close> (the empty string is falsy,
  and stands for a body without \<^verbatim>\<open>address\<close> as well).
  The result is \<open>None\<close> when \<^verbatim>\<open>generateCode\<close> has not returned.
\<close>

definition registerCode :: "int \<Rightarrow> rat list \<Rightarrow> string option \<Rightarrow> registry \<Rightarrow> (reply \<times> registry) option" where
  "registerCode now rnd body reg =
     (case body of
        None \<Rightarrow> Some (Failure 400 ''Invalid JSON'', reg)
      | Some a \<Rightarrow>
          if a = [] then Some (Failure 400 ''Address required'', reg)
          else (case generateCode reg rnd of
                  None \<Rightarrow> None
                | Some code \<Rightarrow>
                    Some (Code code, AList.update code \<lparr>address = a, createdAt = now\<rparr> reg)))"

text \<open>\<^verbatim>\<open>GET /code?code=...\<close>; \<open>None\<close> is a request without the \<^verbatim>\<open>code\<close> parameter.\<close>

definition lookupCode :: "int \<Rightarrow> string option \<Rightarrow> registry \<Rightarrow> reply \<times> registry" where
  "lookupCode now param reg =
     (case param of
        None \<Rightarrow> (Failure 400 ''Code required'', reg)
      | Some code \<Rightarrow>
          if code = [] then (Failure 400 ''Code required'', reg)
          else (case map_of reg code of
                  None \<Rightarrow> (Failure 404 ''Code not found or expired'', reg)
                | Some entry \<Rightarrow>
                    if now - createdAt entry > CODE_EXPIRY_MS
                    then (Failure 404 ''Code expired'', AList.delete code reg)
                    else (Address (address entry), reg)))"

text \<open>The \<^verbatim>\<open>setInterval\<close> callback: one pass over the entries, deleting the expired ones.\<close>

fun sweepEntries :: "int \<Rightarrow> (string \<times> CodeEntry) list \<Rightarrow> registry \<Rightarrow> registry" where
  "sweepEntries now [] reg = reg"
| "sweepEntries now ((code, entry) # rest) reg =
     sweepEntries now rest
       (if now - createdAt entry > CODE_EXPIRY_MS then AList.delete code reg else reg)"

definition sweep :: "int \<Rightarrow> registry \<Rightarrow> registry" where
  "sweep now reg = sweepEntries now reg reg"

section \<open>File transfer (the useFileTransfer composable)\<close>

type_synonym byte = "8 word"

definition FILE_TRANSFER_PROTOCOL :: string where
  "FILE_TRANSFER_PROTOCOL = ''/bytehop/file/1.0.0''"

definition CHUNK_SIZE :: nat where
  "CHUNK_SIZE = 1024 * 64"

datatype status = pending | transferring | completed | error

datatype direction = send | receive

text \<open>
  What can be thrown inside \<^verbatim>\<open>handleIncomingTransfer\<close> and \<^verbatim>\<open>sendFile\<close>. The source
  stores \<^verbatim>\<open>err.message\<close> in the registry entry; the model stores the exception itself.
\<close>

datatype exn =
    InvalidMetadataLength nat  \<comment> \<open>\<^verbatim>\<open>new Error(`Invalid metadata length: ${metadataLength}`)\<close>\<close>
  | UnexpectedEOF              \<comment> \<open>\<^verbatim>\<open>bytes.read\<close>: the stream ended before the requested bytes\<close>
  | SyntaxError                \<comment> \<open>\<^verbatim>\<open>JSON.parse\<close> throws\<close>
  | TypeError                  \<comment> \<open>a property read on \<^verbatim>\<open>null\<close> or \<^verbatim>\<open>undefined\<close>\<close>
  | StorageError               \<comment> \<open>an OPFS write, close or getFile rejects\<close>
  | StreamError                \<comment> \<open>\<^verbatim>\<open>bytes.write\<close> or \<^verbatim>\<open>stream.close\<close> rejects\<close>
  | NodeNotInitialized         \<comment> \<open>\<^verbatim>\<open>new Error('Node not initialized')\<close>\<close>
  | NotConnected               \<comment> \<open>\<^verbatim>\<open>new Error('Not connected to peer')\<close>\<close>
  | DialError                  \<comment> \<open>\<^verbatim>\<open>dialProtocol\<close> rejects or its 30 s signal aborts\<close>
  | ImportError                \<comment> \<open>the dynamic \<^verbatim>\<open>import\<close> of the address matcher rejects\<close>
  | FileReadError              \<comment> \<open>\<^verbatim>\<open>chunkBlob.arrayBuffer()\<close> rejects\<close>

text \<open>
  \<^verbatim>\<open>interface FileTransferProgress\<close>. On the receiving side \<^verbatim>\<open>filename\<close> and \<^verbatim>\<open>size\<close>
  hold whatever the parsed metadata has: \<open>None\<close> is JavaScript's \<^verbatim>\<open>undefined\<close>.
\<close>

record FileTransferProgress =
  tp_id :: string
  tp_filename :: "string option"
  tp_size :: "int option"
  tp_transferred :: int
  tp_status :: status
  tp_direction :: direction
  tp_error :: "exn option"

record ReceivedFile =
  rf_filename :: "string option"
  rf_blob :: "byte list"

text \<open>
  The state of one composable: the \<^verbatim>\<open>transfers\<close> map (insertion-ordered, keyed by transfer
  id) and the \<^verbatim>\<open>receivedFiles\<close> array. \<open>history\<close> is not in the source: it records
  every write to the map, a \<^verbatim>\<open>set\<close> or a field assignment through a stored entry, with
  the entry as it is after the write.
\<close>

record app =
  transfers :: "(string \<times> FileTransferProgress) list"
  receivedFiles :: "ReceivedFile list"
  history :: "(string \<times> FileTransferProgress) list"

definition set_entry :: "string \<Rightarrow> FileTransferProgress \<Rightarrow> app \<Rightarrow> app" where
  "set_entry tid e a =
     a\<lparr>transfers := AList.update tid e (transfers a), history := history a @ [(tid, e)]\<rparr>"

text \<open>
  \<^verbatim>\<open>const transfer = transfers.value.get(transferId); if (transfer) { transfer.f = v }\<close>
\<close>

definition assign_if_present ::
  "string \<Rightarrow> (FileTransferProgress \<Rightarrow> FileTransferProgress) \<Rightarrow> app \<Rightarrow> app" where
  "assign_if_present tid f a =
     (case map_of (transfers a) tid of None \<Rightarrow> a | Some t \<Rightarrow> set_entry tid (f t) a)"

text \<open>\<^verbatim>\<open>transfers.value.get(transferId)!.f = v\<close>: a TypeError when the entry is gone.\<close>

definition assign ::
  "string \<Rightarrow> (FileTransferProgress \<Rightarrow> FileTransferProgress) \<Rightarrow> app \<Rightarrow> exn + app" where
  "assign tid f a =
     (case map_of (transfers a) tid of None \<Rightarrow> Inl TypeError | Some t \<Rightarrow> Inr (set_entry tid (f t) a))"

subsection \<open>Platform functions\<close>

text \<open>
  \<^verbatim>\<open>JSON.stringify\<close>, \<^verbatim>\<open>JSON.parse\<close>, \<^verbatim>\<open>fromString\<close> and \<^verbatim>\<open>TextDecoder\<close> belong to the
  platform, so the model takes them as parameters.
  \<open>meta_filename\<close> and \<open>meta_size\<close> are the \<^verbatim>\<open>filename\<close> and \<^verbatim>\<open>size\<close> properties of the
  parsed value, \<open>None\<close> when the property is absent. The model covers metadata whose
  \<^verbatim>\<open>filename\<close> is a string and whose \<^verbatim>\<open>size\<close> is an integer (of either sign) when present.
\<close>

record metadata =
  meta_filename :: "string option"
  meta_size :: "int option"

datatype parsed =
    ParseThrows       \<comment> \<open>\<^verbatim>\<open>JSON.parse\<close> throws a SyntaxError\<close>
  | ParsedNull        \<comment> \<open>the text is \<^verbatim>\<open>null\<close>\<close>
  | Parsed metadata

record platform =
  JSON_stringify :: "string \<Rightarrow> nat \<Rightarrow> byte list"
    \<comment> \<open>\<^verbatim>\<open>fromString(JSON.stringify({ filename: file.name, size: file.size }))\<close>\<close>
  JSON_parse :: "byte list \<Rightarrow> parsed"
    \<comment> \<open>\<^verbatim>\<open>JSON.parse(new TextDecoder().decode(metaBytes))\<close>\<close>

subsection \<open>The four-byte length prefix\<close>

text \<open>\<^verbatim>\<open>new DataView(buf).getUint32(0)\<close> and \<^verbatim>\<open>setUint32(0, n)\<close>: big-endian, \<open>n\<close> taken modulo \<open>2^32\<close>.\<close>

definition getUint32 :: "byte list \<Rightarrow> nat" where
  "getUint32 bs = foldl (\<lambda>acc b. acc * 256 + unat b) 0 (take 4 bs)"

definition setUint32 :: "nat \<Rightarrow> byte list" where
  "setUint32 n =
     (let v = n mod 2 ^ 32
      in [of_nat (v div 2 ^ 24), of_nat (v div 2 ^ 16 mod 256), of_nat (v div 2 ^ 8 mod 256),
          of_nat (v mod 256)])"

subsection \<open>The inbound stream\<close>

text \<open>
  \<open>incoming\<close> holds the bytes that arrive on the stream before it ends. \<^verbatim>\<open>bytes.read({ bytes: n })\<close>
  of \<^verbatim>\<open>byteStream\<close> returns exactly \<open>n\<close> bytes or rejects when the stream ends first.
  \<open>read_requests\<close> and \<open>close_calls\<close> record the calls made on the stream.
\<close>

record in_stream =
  incoming :: "byte list"
  read_requests :: "nat list"
  close_calls :: nat

definition read :: "nat \<Rightarrow> in_stream \<Rightarrow> (exn + byte list) \<times> in_stream" where
  "read n s =
     (if n \<le> length (incoming s)
      then (Inr (take n (incoming s)),
            s\<lparr>incoming := drop n (incoming s), read_requests := read_requests s @ [n]\<rparr>)
      else (Inl UnexpectedEOF, s\<lparr>incoming := [], read_requests := read_requests s @ [n]\<rparr>))"

text \<open>What the collaborators of one inbound transfer do.\<close>

record recv_env =
  opfs_available :: bool          \<comment> \<open>getDirectory, getFileHandle and createWritable all succeed\<close>
  opfs_write_ok :: "nat \<Rightarrow> bool"   \<comment> \<open>the \<open>k\<close>-th \<^verbatim>\<open>writable.write\<close> succeeds\<close>
  opfs_finalize_ok :: bool        \<comment> \<open>\<^verbatim>\<open>writable.close()\<close> and \<^verbatim>\<open>fileHandle.getFile()\<close> succeed\<close>
  stream_close_ok :: bool         \<comment> \<open>\<^verbatim>\<open>stream.close()\<close> succeeds\<close>

text \<open>The variables of \<^verbatim>\<open>handleIncomingTransfer\<close>, with the stream and the composable's state.\<close>

record recv_state =
  strm :: in_stream
  rapp :: app
  remaining :: int
  chunks :: "byte list list"      \<comment> \<open>the fallback memory buffer\<close>
  file_bytes :: "byte list"       \<comment> \<open>the content of the OPFS file \<^verbatim>\<open>bytehop-<transferId>\<close>\<close>
  opfs_acquisitions :: nat        \<comment> \<open>how often the acquisition block was entered\<close>
  opfs_writes :: nat              \<comment> \<open>how many \<^verbatim>\<open>writable.write\<close> calls were made\<close>

text \<open>Lines 79 to 90: the length prefix and the metadata.\<close>

definition readHeader :: "platform \<Rightarrow> in_stream \<Rightarrow> (exn + metadata) \<times> in_stream" where
  "readHeader P s =
     (case read 4 s of
        (Inl e, s1) \<Rightarrow> (Inl e, s1)
      | (Inr lenBytes, s1) \<Rightarrow>
          (let metadataLength = getUint32 lenBytes
           in if metadataLength > 10000 then (Inl (InvalidMetadataLength metadataLength), s1)
              else (case read metadataLength s1 of
                      (Inl e, s2) \<Rightarrow> (Inl e, s2)
                    | (Inr metaBytes, s2) \<Rightarrow>
                        (case JSON_parse P metaBytes of
                           ParseThrows \<Rightarrow> (Inl SyntaxError, s2)
                         | ParsedNull \<Rightarrow> (Inl TypeError, s2)
                         | Parsed m \<Rightarrow> (Inr m, s2)))))"

text \<open>Lines 119 to 137: the payload loop. \<open>msize\<close> is \<^verbatim>\<open>metadata.size\<close>, \<open>writable\<close> says whether OPFS was acquired.\<close>

function receiveLoop :: "recv_env \<Rightarrow> string \<Rightarrow> int \<Rightarrow> bool \<Rightarrow> recv_state \<Rightarrow> exn option \<times> recv_state" where
  "receiveLoop env tid msize writable s =
     (if remaining s > 0 then
        (let readSize = min (remaining s) (int CHUNK_SIZE)
         in case read (nat readSize) (strm s) of
              (Inl e, strm') \<Rightarrow> (Some e, s\<lparr>strm := strm'\<rparr>)
            | (Inr chunk, strm') \<Rightarrow>
                if writable \<and> \<not> opfs_write_ok env (opfs_writes s)
                then (Some StorageError, s\<lparr>strm := strm', opfs_writes := Suc (opfs_writes s)\<rparr>)
                else
                  (let s1 = (if writable
                             then s\<lparr>strm := strm', file_bytes := file_bytes s @ chunk,
                                    opfs_writes := Suc (opfs_writes s)\<rparr>
                             else s\<lparr>strm := strm', chunks := chunks s @ [chunk]\<rparr>);
                       s2 = s1\<lparr>remaining := remaining s1 - int (length chunk)\<rparr>;
                       s3 = s2\<lparr>rapp := assign_if_present tid
                                         (\<lambda>t. t\<lparr>tp_transferred := msize - remaining s2\<rparr>) (rapp s2)\<rparr>
                   in receiveLoop env tid msize writable s3))
      else (None, s))"
  by pat_completeness auto
termination
proof (relation "measure (\<lambda>(env, tid, msize, writable, s). nat (remaining s))", goal_cases)
  case 1
  show ?case by simp
next
  case (2 env tid msize writable s readSize r strm' chunk s1 s2 s3)
  then have "length chunk = nat readSize" "0 < readSize"
    by (auto simp: read_def CHUNK_SIZE_def split: if_splits)
  with 2 show ?case by (auto split: if_splits)
qed

text \<open>
  Lines 139 to 158, after the payload loop: the final blob, the status, the list of
  received files and \<^verbatim>\<open>stream.close()\<close>.
\<close>

definition finalize :: "recv_env \<Rightarrow> string \<Rightarrow> metadata \<Rightarrow> bool \<Rightarrow> recv_state \<Rightarrow> exn option \<times> recv_state" where
  "finalize env tid m writable s =
     (if writable \<and> \<not> opfs_finalize_ok env then (Some StorageError, s)
      else
        (let finalBlob = (if writable then file_bytes s else concat (chunks s))
         in case assign tid (\<lambda>t. t\<lparr>tp_status := completed\<rparr>) (rapp s) of
              Inl e \<Rightarrow> (Some e, s)
            | Inr a \<Rightarrow>
                (let a' = a\<lparr>receivedFiles := receivedFiles a @
                               [\<lparr>rf_filename = meta_filename m, rf_blob = finalBlob\<rparr>]\<rparr>;
                     s' = s\<lparr>rapp := a',
                            strm := (strm s)\<lparr>close_calls := Suc (close_calls (strm s))\<rparr>\<rparr>
                 in if stream_close_ok env then (None, s') else (Some StreamError, s'))))"

text \<open>
  Lines 92 to 158, after the header has been parsed to \<open>m\<close>: the registry entry, the
  OPFS acquisition, the payload loop and the finalisation. \<^verbatim>\<open>undefined > 0\<close> is false,
  so metadata without \<^verbatim>\<open>size\<close> skips the loop.
\<close>

definition receiving :: "string \<Rightarrow> metadata \<Rightarrow> FileTransferProgress" where
  "receiving tid m =
     \<lparr>tp_id = tid, tp_filename = meta_filename m, tp_size = meta_size m, tp_transferred = 0,
      tp_status = transferring, tp_direction = receive, tp_error = None\<rparr>"

definition receiveBody :: "recv_env \<Rightarrow> string \<Rightarrow> metadata \<Rightarrow> recv_state \<Rightarrow> exn option \<times> recv_state" where
  "receiveBody env tid m s =
     (let s1 = s\<lparr>rapp := set_entry tid (receiving tid m) (rapp s)\<rparr>;
          writable = opfs_available env;
          s2 = s1\<lparr>opfs_acquisitions := Suc (opfs_acquisitions s1)\<rparr>
      in case (case meta_size m of
                 None \<Rightarrow> (None, s2)
               | Some n \<Rightarrow> receiveLoop env tid n writable (s2\<lparr>remaining := n\<rparr>)) of
           (Some e, s3) \<Rightarrow> (Some e, s3)
         | (None, s3) \<Rightarrow> finalize env tid m writable s3)"

text \<open>The \<^verbatim>\<open>try\<close> block of \<^verbatim>\<open>handleIncomingTransfer\<close>.\<close>

definition receiveTry :: "platform \<Rightarrow> recv_env \<Rightarrow> string \<Rightarrow> recv_state \<Rightarrow> exn option \<times> recv_state" where
  "receiveTry P env tid s =
     (case readHeader P (strm s) of
        (Inl e, strm') \<Rightarrow> (Some e, s\<lparr>strm := strm'\<rparr>)
      | (Inr m, strm') \<Rightarrow> receiveBody env tid m (s\<lparr>strm := strm'\<rparr>))"

text \<open>
  \<^verbatim>\<open>handleIncomingTransfer\<close>: \<open>tid\<close> is the value of \<^verbatim>\<open>crypto.randomUUID()\<close>. The
  \<^verbatim>\<open>catch\<close> block replaces the entry of the transfer. One call is modelled from its
  start to its end: what other calls on the same composable (another transfer, or
  \<^verbatim>\<open>clearTransfer\<close>) do at its \<^verbatim>\<open>await\<close> points is not part of the model.
\<close>

definition start :: "in_stream \<Rightarrow> app \<Rightarrow> recv_state" where
  "start st a = \<lparr>strm = st, rapp = a, remaining = 0, chunks = [], file_bytes = [],
                 opfs_acquisitions = 0, opfs_writes = 0\<rparr>"

definition failed :: "string \<Rightarrow> exn \<Rightarrow> FileTransferProgress" where
  "failed tid err =
     \<lparr>tp_id = tid, tp_filename = Some ''Unknown'', tp_size = Some 0, tp_transferred = 0,
      tp_status = error, tp_direction = receive, tp_error = Some err\<rparr>"

definition handleIncomingTransfer :: "platform \<Rightarrow> recv_env \<Rightarrow> string \<Rightarrow> in_stream \<Rightarrow> app \<Rightarrow> recv_state" where
  "handleIncomingTransfer P env tid st a =
     (case receiveTry P env tid (start st a) of
        (None, s) \<Rightarrow> s
      | (Some err, s) \<Rightarrow> s\<lparr>rapp := set_entry tid (failed tid err) (rapp s)\<rparr>)"

subsection \<open>The sender\<close>

record File =
  name :: string
  bytes :: "byte list"     \<comment> \<open>\<^verbatim>\<open>file.size\<close> is the length\<close>

record Connection =
  remotePeer :: string
  remoteAddr :: string
  webrtc :: bool           \<comment> \<open>\<^verbatim>\<open>WebRTC.matches(c.remoteAddr)\<close>\<close>

text \<open>What the node and the outbound stream do during one \<^verbatim>\<open>sendFile\<close>.\<close>

record send_env =
  node_ready :: bool                   \<comment> \<open>\<^verbatim>\<open>node.value\<close> is not null\<close>
  import_ok :: bool                    \<comment> \<open>the dynamic \<^verbatim>\<open>import\<close> resolves\<close>
  connections :: "Connection list"     \<comment> \<open>\<^verbatim>\<open>node.value.getConnections()\<close>\<close>
  dial_ok :: bool                      \<comment> \<open>\<^verbatim>\<open>dialProtocol\<close> resolves within its 30 s\<close>
  slice_ok :: "nat \<Rightarrow> bool"             \<comment> \<open>reading the slice at this offset succeeds\<close>
  write_ok :: "nat \<Rightarrow> bool"             \<comment> \<open>the \<open>k\<close>-th \<^verbatim>\<open>bytes.write\<close> succeeds\<close>
  close_ok :: bool                     \<comment> \<open>\<^verbatim>\<open>stream.close()\<close> succeeds\<close>

record send_state =
  sapp :: app
  dialed :: "string option"            \<comment> \<open>the address given to \<^verbatim>\<open>dialProtocol\<close>\<close>
  written :: "byte list list"          \<comment> \<open>the buffers written to the stream, in order\<close>
  write_calls :: nat
  out_close_calls :: nat
  offset :: nat

text \<open>One \<^verbatim>\<open>await bytes.write(buf)\<close>.\<close>

definition stream_write :: "send_env \<Rightarrow> byte list \<Rightarrow> send_state \<Rightarrow> exn option \<times> send_state" where
  "stream_write env buf s =
     (if write_ok env (write_calls s)
      then (None, s\<lparr>written := written s @ [buf], write_calls := Suc (write_calls s)\<rparr>)
      else (Some StreamError, s\<lparr>write_calls := Suc (write_calls s)\<rparr>))"

text \<open>Lines 228 to 241; \<^verbatim>\<open>file.slice(offset, offset + CHUNK_SIZE)\<close> is \<open>take\<close> after \<open>drop\<close>.\<close>

function sendLoop :: "send_env \<Rightarrow> string \<Rightarrow> File \<Rightarrow> send_state \<Rightarrow> exn option \<times> send_state" where
  "sendLoop env tid file s =
     (if offset s < length (bytes file) then
        (if \<not> slice_ok env (offset s) then (Some FileReadError, s)
         else
           (let chunk = take CHUNK_SIZE (drop (offset s) (bytes file))
            in case stream_write env chunk s of
                 (Some e, s1) \<Rightarrow> (Some e, s1)
               | (None, s1) \<Rightarrow>
                   (let s2 = s1\<lparr>offset := offset s1 + length chunk\<rparr>;
                        s3 = s2\<lparr>sapp := assign_if_present tid
                                          (\<lambda>t. t\<lparr>tp_transferred := int (offset s2)\<rparr>) (sapp s2)\<rparr>
                    in sendLoop env tid file s3)))
      else (None, s))"
  by pat_completeness auto
termination
proof (relation "measure (\<lambda>(env, tid, file, s). length (bytes file) - offset s)", goal_cases)
  case 1
  show ?case by simp
next
  case (2 env tid f s chunk r s1 s2 s3)
  then have "offset s1 = offset s"
    by (auto simp: stream_write_def split: if_splits)
  with 2 show ?case by (auto simp: CHUNK_SIZE_def)
qed

text \<open>
  Lines 217 to 245, once the stream is open: the status, the length prefix, the metadata,
  the payload loop, \<^verbatim>\<open>stream.close()\<close> and the final status.
\<close>

definition sendPayload :: "send_env \<Rightarrow> string \<Rightarrow> File \<Rightarrow> byte list \<Rightarrow> byte list \<Rightarrow> send_state \<Rightarrow> exn option \<times> send_state" where
  "sendPayload env tid file lenBuf metaBytes s =
     (case assign tid (\<lambda>t. t\<lparr>tp_status := transferring\<rparr>) (sapp s) of
        Inl e \<Rightarrow> (Some e, s)
      | Inr a \<Rightarrow>
          (case stream_write env lenBuf (s\<lparr>sapp := a\<rparr>) of
             (Some e, s2) \<Rightarrow> (Some e, s2)
           | (None, s2) \<Rightarrow>
               (case stream_write env metaBytes s2 of
                  (Some e, s3) \<Rightarrow> (Some e, s3)
                | (None, s3) \<Rightarrow>
                    (case sendLoop env tid file (s3\<lparr>offset := 0\<rparr>) of
                       (Some e, s4) \<Rightarrow> (Some e, s4)
                     | (None, s4) \<Rightarrow>
                         (let s5 = s4\<lparr>out_close_calls := Suc (out_close_calls s4)\<rparr>
                          in if \<not> close_ok env then (Some StreamError, s5)
                             else (case assign tid (\<lambda>t. t\<lparr>tp_status := completed\<rparr>) (sapp s5) of
                                     Inl e \<Rightarrow> (Some e, s5)
                                   | Inr a' \<Rightarrow> (None, s5\<lparr>sapp := a'\<rparr>)))))))"

text \<open>The \<^verbatim>\<open>try\<close> block of \<^verbatim>\<open>sendFile\<close>, lines 189 to 246.\<close>

definition sendTry :: "platform \<Rightarrow> send_env \<Rightarrow> string \<Rightarrow> File \<Rightarrow> string \<Rightarrow> send_state \<Rightarrow> exn option \<times> send_state" where
  "sendTry P env tid file peerId s =
     (if \<not> import_ok env then (Some ImportError, s)
      else
        (let peerConns = filter (\<lambda>c. remotePeer c = peerId) (connections env)
         in case peerConns of
              [] \<Rightarrow> (Some NotConnected, s)
            | first # _ \<Rightarrow>
                (let peerConn = (case find webrtc peerConns of Some c \<Rightarrow> c | None \<Rightarrow> first);
                     metaBytes = JSON_stringify P (name file) (length (bytes file));
                     lenBuf = setUint32 (length metaBytes)
                 in if \<not> dial_ok env then (Some DialError, s)
                    else sendPayload env tid file lenBuf metaBytes
                           (s\<lparr>dialed := Some (remoteAddr peerConn)\<rparr>))))"

text \<open>
  \<^verbatim>\<open>sendFile\<close>: the first component is the exception the caller receives, if any.
\<close>

definition sending :: "string \<Rightarrow> File \<Rightarrow> FileTransferProgress" where
  "sending tid file =
     \<lparr>tp_id = tid, tp_filename = Some (name file), tp_size = Some (int (length (bytes file))),
      tp_transferred = 0, tp_status = pending, tp_direction = send, tp_error = None\<rparr>"

definition sendFile :: "platform \<Rightarrow> send_env \<Rightarrow> string \<Rightarrow> File \<Rightarrow> string \<Rightarrow> app \<Rightarrow> exn option \<times> send_state" where
  "sendFile P env tid file peerId a =
     (let s0 = \<lparr>sapp = a, dialed = None, written = [], write_calls = 0, out_close_calls = 0,
                offset = 0\<rparr>
      in if \<not> node_ready env then (Some NodeNotInitialized, s0)
         else
           (case sendTry P env tid file peerId (s0\<lparr>sapp := set_entry tid (sending tid file) a\<rparr>) of
              (None, s) \<Rightarrow> (None, s)
            | (Some err, s) \<Rightarrow>
                (Some err,
                 s\<lparr>sapp := assign_if_present tid
                             (\<lambda>t. t\<lparr>tp_status := error, tp_error := Some err\<rparr>) (sapp s)\<rparr>)))"

subsection \<open>Registering the protocol handler\<close>

text \<open>
  The registrar of the node: the list of protocols that have a handler, one element per
  registered handler. \<open>strict\<close> says whether \<^verbatim>\<open>handle\<close> rejects a protocol that already
  has a handler (as libp2p does) or installs a further handler; \<open>healthy\<close> says whether
  \<^verbatim>\<open>handle\<close> succeeds otherwise (it rejects on a node that cannot register handlers).
\<close>

record node =
  strict :: bool
  healthy :: bool
  handlers :: "string list"

definition unhandle :: "string \<Rightarrow> node \<Rightarrow> node" where
  "unhandle protocol n = n\<lparr>handlers := removeAll protocol (handlers n)\<rparr>"

definition handle :: "string \<Rightarrow> node \<Rightarrow> node option" where
  "handle protocol n =
     (if \<not> healthy n \<or> (strict n \<and> protocol \<in> set (handlers n)) then None
      else Some (n\<lparr>handlers := handlers n @ [protocol]\<rparr>))"

text \<open>
  \<^verbatim>\<open>registerProtocol\<close>, on the pair of the composable's \<^verbatim>\<open>protocolRegistered\<close> flag and
  the node. An exception of \<^verbatim>\<open>unhandle\<close> is ignored and one of \<^verbatim>\<open>handle\<close> is logged.
\<close>

definition registerProtocol :: "bool \<times> node \<Rightarrow> bool \<times> node" where
  "registerProtocol = (\<lambda>(protocolRegistered, n).
     if protocolRegistered then (protocolRegistered, n)
     else (let n1 = unhandle FILE_TRANSFER_PROTOCOL n
           in case handle FILE_TRANSFER_PROTOCOL n1 of
                None \<Rightarrow> (protocolRegistered, n1)
              | Some n2 \<Rightarrow> (True, n2)))"

text \<open>
  An inbound stream on the protocol: the node calls every handler registered for it, and
  each call runs \<^verbatim>\<open>handleIncomingTransfer\<close> with the next transfer id.
\<close>

fun deliver :: "platform \<Rightarrow> recv_env \<Rightarrow> string list \<Rightarrow> in_stream \<Rightarrow> string list \<Rightarrow> app \<Rightarrow> app" where
  "deliver P env (tid # tids) st (h # hs) a =
     (if h = FILE_TRANSFER_PROTOCOL
      then deliver P env tids st hs (rapp (handleIncomingTransfer P env tid st a))
      else deliver P env (tid # tids) st hs a)"
| "deliver P env tids st hs a = a"

subsection \<open>Notions used to state the properties\<close>

text \<open>The registry writes made between two states of the composable, oldest first.\<close>

definition updates_since :: "app \<Rightarrow> app \<Rightarrow> (string \<times> FileTransferProgress) list" where
  "updates_since a a' = drop (length (history a)) (history a')"

text \<open>\<open>0 \<le> transferred \<le> size\<close>; it fails for an entry whose \<^verbatim>\<open>size\<close> is \<^verbatim>\<open>undefined\<close>.\<close>

definition within_size :: "FileTransferProgress \<Rightarrow> bool" where
  "within_size t =
     (case tp_size t of None \<Rightarrow> False | Some n \<Rightarrow> 0 \<le> tp_transferred t \<and> tp_transferred t \<le> n)"

text \<open>
  The forward transitions of a status. A sequence of recorded statuses follows the
  lifecycle when, repetitions of the same status aside, each step is a forward transition.
\<close>

fun forward :: "status \<Rightarrow> status \<Rightarrow> bool" where
  "forward pending transferring = True"
| "forward pending error = True"
| "forward transferring completed = True"
| "forward transferring error = True"
| "forward _ _ = False"

definition lifecycle :: "status list \<Rightarrow> bool" where
  "lifecycle ss = successively forward (remdups_adj ss)"

text \<open>A list cut into consecutive pieces of \<open>n\<close> elements, the last one possibly shorter.\<close>

fun chunked :: "nat \<Rightarrow> 'a list \<Rightarrow> 'a list list" where
  "chunked n xs = (if n = 0 \<or> xs = [] then [] else take n xs # chunked n (drop n xs))"

declare chunked.simps [simp del] receiveLoop.simps [simp del] sendLoop.simps [simp del]


subsection \<open>A platform for the examples\<close>

text \<open>
  The examples below run the model on concrete streams, so they need concrete platform
  functions. \<open>stringify_ascii\<close> is the text \<^verbatim>\<open>JSON.stringify\<close> produces for
  \<^verbatim>\<open>{ filename, size }\<close> when the file name consists of ASCII characters that need no
  escape, encoded one byte per character. \<open>parse_table\<close> is a \<^verbatim>\<open>JSON.parse\<close> given by
  a finite table of texts and their values; every other text is a syntax error.
\<close>

definition ascii :: "string \<Rightarrow> byte list" where
  "ascii cs = map of_char cs"

definition stringify_ascii :: "string \<Rightarrow> nat \<Rightarrow> byte list" where
  \<open>stringify_ascii fname n =
     ascii (''{"filename":"'' @ fname @ ''","size":'' @ toString n @ ''}'')\<close>

definition parse_table :: "(byte list \<times> parsed) list \<Rightarrow> byte list \<Rightarrow> parsed" where
  "parse_table tbl bs = (case map_of tbl bs of None \<Rightarrow> ParseThrows | Some p \<Rightarrow> p)"

definition empty_app :: app where
  "empty_app = \<lparr>transfers = [], receivedFiles = [], history = []\<rparr>"

definition fresh_stream :: "byte list \<Rightarrow> in_stream" where
  "fresh_stream bs = \<lparr>incoming = bs, read_requests = [], close_calls = 0\<rparr>"

text \<open>Collaborators that never fail, with and without OPFS.\<close>

definition reliable :: "bool \<Rightarrow> recv_env" where
  "reliable opfs =
     \<lparr>opfs_available = opfs, opfs_write_ok = (\<lambda>k. True), opfs_finalize_ok = True,
      stream_close_ok = True\<rparr>"

definition connected_to :: "string \<Rightarrow> send_env" where
  "connected_to peer =
     \<lparr>node_ready = True, import_ok = True,
      connections = [\<lparr>remotePeer = peer, remoteAddr = ''/webrtc/p2p/'' @ peer, webrtc = True\<rparr>],
      dial_ok = True, slice_ok = (\<lambda>k. True), write_ok = (\<lambda>k. True), close_ok = True\<rparr>"

text \<open>
  The platform of the examples: its \<^verbatim>\<open>JSON.parse\<close> knows the metadata of a three-byte
  file, of a file announced with 65537 bytes, of a file with a name of 10000 characters,
  and the empty object.
\<close>

definition long_name :: string where
  "long_name = replicate 10000 CHR ''a''"

definition sample_platform :: platform where
  "sample_platform =
     \<lparr>JSON_stringify = stringify_ascii,
      JSON_parse = parse_table
        [(stringify_ascii ''a.txt'' 3,
            Parsed \<lparr>meta_filename = Some ''a.txt'', meta_size = Some 3\<rparr>),
         (stringify_ascii ''a.txt'' 65537,
            Parsed \<lparr>meta_filename = Some ''a.txt'', meta_size = Some 65537\<rparr>),
         (stringify_ascii long_name 0,
            Parsed \<lparr>meta_filename = Some long_name, meta_size = Some 0\<rparr>),
         (ascii ''{}'', Parsed \<lparr>meta_filename = None, meta_size = None\<rparr>)]\<rparr>"
section \<open>Properties of the code registry\<close>

lemma sweepEntries_filter:
  "sweepEntries now es reg =
     filter (\<lambda>(c, e). \<not> (\<exists>e'. (c, e') \<in> set es \<and> now - createdAt e' > CODE_EXPIRY_MS)) reg"
proof (induction es arbitrary: reg)
  case Nil
  then show ?case by simp
next
  case (Cons p es)
  obtain c e where p: "p = (c, e)" by (cases p)
  show ?case
    unfolding p sweepEntries.simps Cons.IH
    by (auto simp: AList.delete_eq intro!: filter_cong)
qed

lemma map_of_filter_keys:
  "map_of (filter (\<lambda>(c, e). P c) reg) k = (if P k then map_of reg k else None)"
  by (induction reg) auto

lemma map_of_sweep:
  assumes "distinct (map fst reg)"
  shows "map_of (sweep now reg) code =
           (case map_of reg code of
              None \<Rightarrow> None
            | Some e \<Rightarrow> if now - createdAt e > CODE_EXPIRY_MS then None else Some e)"
proof -
  have key: "(\<exists>e'. (code, e') \<in> set reg \<and> now - createdAt e' > CODE_EXPIRY_MS) \<longleftrightarrow>
             (\<exists>e. map_of reg code = Some e \<and> now - createdAt e > CODE_EXPIRY_MS)"
    using assms by (auto dest: map_of_SomeD)
  show ?thesis
    unfolding sweep_def sweepEntries_filter
    using key by (simp add: map_of_filter_keys split: option.splits)
qed

lemma toString_nonempty: "toString n \<noteq> []"
  by (subst toString.simps) simp


lemma digit_simps:
  "digit 0 = CHR ''0''" "digit 1 = CHR ''1''" "digit 2 = CHR ''2''" "digit 3 = CHR ''3''"
  "digit 4 = CHR ''4''" "digit 5 = CHR ''5''" "digit 6 = CHR ''6''" "digit 7 = CHR ''7''"
  "digit 8 = CHR ''8''" "digit 9 = CHR ''9''"
  by code_simp+

lemma toString_small: "n < 10 \<Longrightarrow> toString n = [digit n]"
  by (subst toString.simps) simp

lemma toString_large: "10 \<le> n \<Longrightarrow> toString n = toString (n div 10) @ [digit (n mod 10)]"
  by (subst toString.simps) simp





lemma generateCode_Some:
  "generateCode reg rnd = Some code \<Longrightarrow>
     \<not> has reg code \<and> (\<exists>x \<in> set rnd. code = toString (randomNumber x))"
  by (induction rnd) (auto simp: Let_def split: if_splits)

text \<open>The loop returns as soon as one drawn number is not a key of the registry.\<close>

lemma generateCode_returns:
  "\<exists>x \<in> set rnd. \<not> has reg (toString (randomNumber x)) \<Longrightarrow> \<exists>code. generateCode reg rnd = Some code"
  by (induction rnd) (auto simp: Let_def)



text \<open>
  Claim C9. For an entry of the registry, a lookup made more than \<^const>\<open>CODE_EXPIRY_MS\<close>
  (five minutes) after its creation answers 404 and deletes the entry, so a later lookup
  answers not-found; a lookup made no later than that answers with the registered address
  and changes nothing; and the periodic sweep removes the entry exactly when it is older
  than \<^const>\<open>CODE_EXPIRY_MS\<close>.
\<close>

theorem lookupCode_expiry:
  assumes "map_of reg code = Some entry" and "code \<noteq> []"
  shows "(now - createdAt entry > CODE_EXPIRY_MS \<longrightarrow>
            fst (lookupCode now (Some code) reg) = Failure 404 ''Code expired'' \<and>
            map_of (snd (lookupCode now (Some code) reg)) code = None \<and>
            fst (lookupCode now' (Some code) (snd (lookupCode now (Some code) reg))) =
              Failure 404 ''Code not found or expired'') \<and>
         (now - createdAt entry \<le> CODE_EXPIRY_MS \<longrightarrow>
            lookupCode now (Some code) reg = (Address (address entry), reg)) \<and>
         (distinct (map fst reg) \<longrightarrow>
            map_of (sweep now reg) code =
              (if now - createdAt entry > CODE_EXPIRY_MS then None else Some entry))"
  using assms by (auto simp: lookupCode_def delete_conv' map_of_sweep)

theorem lookupCode_expiry_witness:
  "lookupCode (1000 + CODE_EXPIRY_MS - 1000) (Some ''325000'')
       [(''325000'', \<lparr>address = ''/ip4/b'', createdAt = 1000\<rparr>)] =
     (Address ''/ip4/b'', [(''325000'', \<lparr>address = ''/ip4/b'', createdAt = 1000\<rparr>)]) \<and>
   lookupCode (1000 + CODE_EXPIRY_MS + 1000) (Some ''325000'')
       [(''325000'', \<lparr>address = ''/ip4/b'', createdAt = 1000\<rparr>)] =
     (Failure 404 ''Code expired'', []) \<and>
   sweep (1000 + CODE_EXPIRY_MS + 1000) [(''325000'', \<lparr>address = ''/ip4/b'', createdAt = 1000\<rparr>)] = []"
proof -
  let ?reg = "[(''325000'', \<lparr>address = ''/ip4/b'', createdAt = 1000\<rparr>)]"
  have m: "map_of ?reg ''325000'' = Some \<lparr>address = ''/ip4/b'', createdAt = 1000\<rparr>" by simp
  have n: "''325000'' \<noteq> []" by simp
  have d: "distinct (map fst ?reg)" by simp
  note early = lookupCode_expiry[OF m n, of "1000 + CODE_EXPIRY_MS - 1000"]
  note late = lookupCode_expiry[OF m n, of "1000 + CODE_EXPIRY_MS + 1000" 0]
  have l: "lookupCode (1000 + CODE_EXPIRY_MS + 1000) (Some ''325000'') ?reg =
             (fst (lookupCode (1000 + CODE_EXPIRY_MS + 1000) (Some ''325000'') ?reg), [])"
    by (simp add: lookupCode_def CODE_EXPIRY_MS_def)
  have s: "sweep (1000 + CODE_EXPIRY_MS + 1000) ?reg = []"
    by (simp add: sweep_def CODE_EXPIRY_MS_def)
  from early late d l s show ?thesis by (simp add: CODE_EXPIRY_MS_def)
qed

text \<open>The keys of the registry stay distinct, as those of a \<^verbatim>\<open>Map\<close> are.\<close>

lemma registry_keys_distinct:
  assumes "distinct (map fst reg)"
  shows "registerCode now rnd body reg = Some (rep, reg') \<Longrightarrow> distinct (map fst reg')"
    and "distinct (map fst (snd (lookupCode now param reg)))"
    and "distinct (map fst (sweep now reg))"
proof -
  show "registerCode now rnd body reg = Some (rep, reg') \<Longrightarrow> distinct (map fst reg')"
    using assms
    by (auto simp: registerCode_def distinct_update split: option.splits if_splits)
  show "distinct (map fst (snd (lookupCode now param reg)))"
    using assms by (auto simp: lookupCode_def distinct_delete split: option.splits)
  show "distinct (map fst (sweep now reg))"
    using assms unfolding sweep_def sweepEntries_filter by (simp add: distinct_map_filter)
qed

text \<open>
  The scenario of the specification: a code registered at \<open>t0\<close> is found one second
  before the expiry time and reported expired one second after it.
\<close>

lemma registerCode_then_lookup:
  assumes "registerCode t0 rnd (Some a) reg = Some (Code code, reg')"
  shows "lookupCode (t0 + CODE_EXPIRY_MS - 1000) (Some code) reg' = (Address a, reg') \<and>
         fst (lookupCode (t0 + CODE_EXPIRY_MS + 1000) (Some code) reg') = Failure 404 ''Code expired'' \<and>
         map_of (snd (lookupCode (t0 + CODE_EXPIRY_MS + 1000) (Some code) reg')) code = None"
proof -
  from assms obtain x where "code = toString x" and reg': "reg' = AList.update code \<lparr>address = a, createdAt = t0\<rparr> reg"
    by (auto simp: registerCode_def split: if_splits option.splits dest: generateCode_Some)
  then have "code \<noteq> []" by (simp add: toString_nonempty)
  moreover have "map_of reg' code = Some \<lparr>address = a, createdAt = t0\<rparr>"
    by (simp add: reg' update_conv')
  ultimately show ?thesis
    by (simp add: lookupCode_def delete_conv')
qed



section \<open>Properties of the file transfer\<close>

subsection \<open>The length prefix\<close>

lemma base256_digits:
  "16777216 * ((n::nat) div 16777216) + 65536 * (n div 65536 mod 256) +
     n div 256 mod 256 * 256 + n mod 256 = n"
proof -
  have d1: "n div 256 div 256 = n div 65536" by (simp add: div_mult2_eq)
  have d2: "n div 65536 div 256 = n div 16777216" by (simp add: div_mult2_eq)
  have e0: "n = 256 * (n div 256) + n mod 256" by simp
  have e1: "n div 256 = 256 * (n div 65536) + n div 256 mod 256"
    using mult_div_mod_eq[of 256 "n div 256"] unfolding d1 by simp
  have e2: "n div 65536 = 256 * (n div 16777216) + n div 65536 mod 256"
    using mult_div_mod_eq[of 256 "n div 65536"] unfolding d2 by simp
  show ?thesis using e0 e1 e2 by linarith
qed

lemma getUint32_setUint32: "n < 2 ^ 32 \<Longrightarrow> getUint32 (setUint32 n) = n"
  unfolding getUint32_def setUint32_def Let_def
  by (simp add: unat_of_nat base256_digits)

lemma length_setUint32: "length (setUint32 n) = 4"
  by (simp add: setUint32_def Let_def)

subsection \<open>Reading from the stream\<close>

lemma read_prefix:
  "incoming s = xs @ ys \<Longrightarrow>
   read (length xs) s =
     (Inr xs, s\<lparr>incoming := ys, read_requests := read_requests s @ [length xs]\<rparr>)"
  by (simp add: read_def)

lemma read_close_calls: "read n s = (r, s') \<Longrightarrow> close_calls s' = close_calls s"
  by (auto simp: read_def split: if_splits)

subsection \<open>One turn of each loop\<close>

lemma receiveLoop_stop:
  "\<not> remaining s > 0 \<Longrightarrow> receiveLoop env tid msize w s = (None, s)"
  by (subst receiveLoop.simps) simp

lemma receiveLoop_eof:
  "remaining s > 0 \<Longrightarrow>
   read (nat (min (remaining s) (int CHUNK_SIZE))) (strm s) = (Inl e, st') \<Longrightarrow>
   receiveLoop env tid msize w s = (Some e, s\<lparr>strm := st'\<rparr>)"
  by (subst receiveLoop.simps) (simp add: Let_def)

lemma receiveLoop_write_fails:
  "remaining s > 0 \<Longrightarrow>
   read (nat (min (remaining s) (int CHUNK_SIZE))) (strm s) = (Inr chunk, st') \<Longrightarrow>
   w \<Longrightarrow> \<not> opfs_write_ok env (opfs_writes s) \<Longrightarrow>
   receiveLoop env tid msize w s =
     (Some StorageError, s\<lparr>strm := st', opfs_writes := Suc (opfs_writes s)\<rparr>)"
  by (subst receiveLoop.simps) (simp add: Let_def)

lemma receiveLoop_opfs:
  "remaining s > 0 \<Longrightarrow>
   read (nat (min (remaining s) (int CHUNK_SIZE))) (strm s) = (Inr chunk, st') \<Longrightarrow>
   w \<Longrightarrow> opfs_write_ok env (opfs_writes s) \<Longrightarrow>
   receiveLoop env tid msize w s =
     receiveLoop env tid msize w
       (s\<lparr>strm := st', file_bytes := file_bytes s @ chunk, opfs_writes := Suc (opfs_writes s),
          remaining := remaining s - int (length chunk),
          rapp := assign_if_present tid
                    (\<lambda>t. t\<lparr>tp_transferred := msize - (remaining s - int (length chunk))\<rparr>)
                    (rapp s)\<rparr>)"
  by (subst receiveLoop.simps) (simp add: Let_def)

lemma receiveLoop_memory:
  "remaining s > 0 \<Longrightarrow>
   read (nat (min (remaining s) (int CHUNK_SIZE))) (strm s) = (Inr chunk, st') \<Longrightarrow>
   \<not> w \<Longrightarrow>
   receiveLoop env tid msize w s =
     receiveLoop env tid msize w
       (s\<lparr>strm := st', chunks := chunks s @ [chunk],
          remaining := remaining s - int (length chunk),
          rapp := assign_if_present tid
                    (\<lambda>t. t\<lparr>tp_transferred := msize - (remaining s - int (length chunk))\<rparr>)
                    (rapp s)\<rparr>)"
  by (subst receiveLoop.simps) (simp add: Let_def)

lemma sendLoop_stop:
  "\<not> offset s < length (bytes f) \<Longrightarrow> sendLoop env tid f s = (None, s)"
  by (subst sendLoop.simps) simp

lemma sendLoop_slice_fails:
  "offset s < length (bytes f) \<Longrightarrow> \<not> slice_ok env (offset s) \<Longrightarrow>
   sendLoop env tid f s = (Some FileReadError, s)"
  by (subst sendLoop.simps) simp

lemma sendLoop_write_fails:
  "offset s < length (bytes f) \<Longrightarrow> slice_ok env (offset s) \<Longrightarrow>
   \<not> write_ok env (write_calls s) \<Longrightarrow>
   sendLoop env tid f s = (Some StreamError, s\<lparr>write_calls := Suc (write_calls s)\<rparr>)"
  by (subst sendLoop.simps) (simp add: stream_write_def Let_def)

lemma sendLoop_turn:
  "offset s < length (bytes f) \<Longrightarrow> slice_ok env (offset s) \<Longrightarrow>
   write_ok env (write_calls s) \<Longrightarrow>
   sendLoop env tid f s =
     sendLoop env tid f
       (s\<lparr>written := written s @ [take CHUNK_SIZE (drop (offset s) (bytes f))],
          write_calls := Suc (write_calls s),
          offset := offset s + length (take CHUNK_SIZE (drop (offset s) (bytes f))),
          sapp := assign_if_present tid
                    (\<lambda>t. t\<lparr>tp_transferred :=
                              int (offset s + length (take CHUNK_SIZE (drop (offset s) (bytes f))))\<rparr>)
                    (sapp s)\<rparr>)"
  by (subst sendLoop.simps) (simp add: stream_write_def Let_def)

subsection \<open>Writes to the registry\<close>

lemma set_entry_simps:
  "transfers (set_entry tid e a) = AList.update tid e (transfers a)"
  "history (set_entry tid e a) = history a @ [(tid, e)]"
  "receivedFiles (set_entry tid e a) = receivedFiles a"
  by (simp_all add: set_entry_def)

lemma map_of_set_entry: "map_of (transfers (set_entry tid e a)) tid = Some e"
  by (simp add: set_entry_def update_conv')

lemma keys_set_entry_present:
  "map_of (transfers a) tid = Some t \<Longrightarrow>
   map fst (transfers (set_entry tid e a)) = map fst (transfers a)"
  by (auto simp: set_entry_def update_keys dest: map_of_SomeD intro: rev_image_eqI)

lemma assign_if_present_Some:
  "map_of (transfers a) tid = Some t \<Longrightarrow> assign_if_present tid f a = set_entry tid (f t) a"
  by (simp add: assign_if_present_def)

lemma assign_Some:
  "map_of (transfers a) tid = Some t \<Longrightarrow> assign tid f a = Inr (set_entry tid (f t) a)"
  by (simp add: assign_def)

subsection \<open>The payload loop of the receiver\<close>

lemma read_Inr_length:
  "read n st = (Inr chunk, st') \<Longrightarrow> length chunk = n"
  by (auto simp: read_def split: if_splits)

lemma receiveLoop_updates:
  assumes "map_of (transfers (rapp s)) tid = Some (t\<lparr>tp_transferred := msize - remaining s\<rparr>)"
    and "remaining s \<le> msize"
    and "receiveLoop env tid msize w s = (x, s')"
  shows "\<exists>vs. history (rapp s') = history (rapp s) @ map (\<lambda>v. (tid, t\<lparr>tp_transferred := v\<rparr>)) vs \<and>
              sorted ((msize - remaining s) # vs) \<and> (\<forall>v \<in> set vs. v \<le> msize) \<and>
              map_of (transfers (rapp s')) tid =
                Some (t\<lparr>tp_transferred := last ((msize - remaining s) # vs)\<rparr>) \<and>
              last ((msize - remaining s) # vs) = msize - remaining s' \<and>
              receivedFiles (rapp s') = receivedFiles (rapp s) \<and>
              map fst (transfers (rapp s')) = map fst (transfers (rapp s))"
  using assms
proof (induction "nat (remaining s)" arbitrary: s rule: less_induct)
  case less
  let ?n = "nat (min (remaining s) (int CHUNK_SIZE))"
  show ?case
  proof (cases "remaining s > 0")
    case False
    with less.prems have "s' = s" by (simp add: receiveLoop_stop)
    with less.prems show ?thesis by (intro exI[of _ "[]"]) simp
  next
    case pos: True
    obtain r st' where rd: "read ?n (strm s) = (r, st')" by (cases "read ?n (strm s)")
    show ?thesis
    proof (cases r)
      case (Inl e)
      with pos rd less.prems have "s' = s\<lparr>strm := st'\<rparr>" by (simp add: receiveLoop_eof)
      with less.prems show ?thesis by (intro exI[of _ "[]"]) simp
    next
      case (Inr chunk)
      with rd have rd': "read ?n (strm s) = (Inr chunk, st')" by simp
      from read_Inr_length[OF rd'] pos have len: "0 < length chunk" "int (length chunk) \<le> remaining s"
        by (simp_all add: CHUNK_SIZE_def)
      let ?v = "msize - (remaining s - int (length chunk))"
      let ?a = "assign_if_present tid (\<lambda>t. t\<lparr>tp_transferred := ?v\<rparr>) (rapp s)"
      have a: "?a = set_entry tid (t\<lparr>tp_transferred := ?v\<rparr>) (rapp s)"
        using less.prems(1) by (simp add: assign_if_present_Some)
      show ?thesis
      proof (cases "w \<and> \<not> opfs_write_ok env (opfs_writes s)")
        case True
        with pos rd' less.prems have "s' = s\<lparr>strm := st', opfs_writes := Suc (opfs_writes s)\<rparr>"
          by (simp add: receiveLoop_write_fails)
        with less.prems show ?thesis by (intro exI[of _ "[]"]) simp
      next
        case False
        define s3 where "s3 =
          (if w then s\<lparr>strm := st', file_bytes := file_bytes s @ chunk,
                       opfs_writes := Suc (opfs_writes s),
                       remaining := remaining s - int (length chunk), rapp := ?a\<rparr>
           else s\<lparr>strm := st', chunks := chunks s @ [chunk],
                   remaining := remaining s - int (length chunk), rapp := ?a\<rparr>)"
        have step: "receiveLoop env tid msize w s = receiveLoop env tid msize w s3"
          using pos rd' False
          by (cases w) (simp_all add: s3_def receiveLoop_opfs receiveLoop_memory)
        have rem3: "remaining s3 = remaining s - int (length chunk)" and app3: "rapp s3 = ?a"
          by (simp_all add: s3_def)
        have m3: "map_of (transfers (rapp s3)) tid = Some (t\<lparr>tp_transferred := msize - remaining s3\<rparr>)"
          by (simp add: app3 a rem3 map_of_set_entry)
        have "nat (remaining s3) < nat (remaining s)" using len pos by (simp add: rem3)
        moreover have "remaining s3 \<le> msize" using less.prems(2) len by (simp add: rem3)
        moreover have "receiveLoop env tid msize w s3 = (x, s')" using less.prems(3) step by simp
        ultimately obtain vs where
          h: "history (rapp s') = history (rapp s3) @ map (\<lambda>v. (tid, t\<lparr>tp_transferred := v\<rparr>)) vs"
          and so: "sorted ((msize - remaining s3) # vs)" and le: "\<forall>v \<in> set vs. v \<le> msize"
          and m: "map_of (transfers (rapp s')) tid =
                    Some (t\<lparr>tp_transferred := last ((msize - remaining s3) # vs)\<rparr>)"
          and la: "last ((msize - remaining s3) # vs) = msize - remaining s'"
          and rf: "receivedFiles (rapp s') = receivedFiles (rapp s3)"
          and ks: "map fst (transfers (rapp s')) = map fst (transfers (rapp s3))"
          using less.hyps[of s3] m3 by blast
        have h': "history (rapp s') =
                    history (rapp s) @ map (\<lambda>v. (tid, t\<lparr>tp_transferred := v\<rparr>)) (?v # vs)"
          using h by (simp add: app3 a set_entry_simps)
        have so': "sorted ((msize - remaining s) # ?v # vs)"
          using so len by (fastforce simp: rem3)
        have le': "\<forall>u \<in> set (?v # vs). u \<le> msize"
          using le len by auto
        have m': "map_of (transfers (rapp s')) tid =
                    Some (t\<lparr>tp_transferred := last ((msize - remaining s) # ?v # vs)\<rparr>)"
          using m by (simp add: rem3)
        have la': "last ((msize - remaining s) # ?v # vs) = msize - remaining s'"
          using la by (simp add: rem3)
        have rf': "receivedFiles (rapp s') = receivedFiles (rapp s)"
          using rf by (simp add: app3 a set_entry_simps)
        have ks': "map fst (transfers (rapp s')) = map fst (transfers (rapp s))"
          using ks less.prems(1) by (simp add: app3 a keys_set_entry_present)
        from h' so' le' m' la' rf' ks' show ?thesis by blast
      qed
    qed
  qed
qed

lemma receiveLoop_frame:
  assumes "receiveLoop env tid msize w s = (x, s')"
  shows "close_calls (strm s') = close_calls (strm s) \<and>
         opfs_acquisitions s' = opfs_acquisitions s \<and>
         (w \<longrightarrow> chunks s' = chunks s) \<and>
         (\<not> w \<longrightarrow> file_bytes s' = file_bytes s \<and> opfs_writes s' = opfs_writes s)"
  using assms
proof (induction "nat (remaining s)" arbitrary: s rule: less_induct)
  case less
  let ?n = "nat (min (remaining s) (int CHUNK_SIZE))"
  show ?case
  proof (cases "remaining s > 0")
    case False
    with less.prems show ?thesis by (simp add: receiveLoop_stop)
  next
    case pos: True
    obtain r st' where rd: "read ?n (strm s) = (r, st')" by (cases "read ?n (strm s)")
    note cc = read_close_calls[OF rd]
    show ?thesis
    proof (cases r)
      case (Inl e)
      with pos rd less.prems have "s' = s\<lparr>strm := st'\<rparr>" by (simp add: receiveLoop_eof)
      with cc show ?thesis by simp
    next
      case (Inr chunk)
      with rd have rd': "read ?n (strm s) = (Inr chunk, st')" by simp
      from read_Inr_length[OF rd'] pos have len: "0 < length chunk"
        by (simp add: CHUNK_SIZE_def)
      show ?thesis
      proof (cases w)
        case True
        show ?thesis
        proof (cases "opfs_write_ok env (opfs_writes s)")
          case False
          with True pos rd' less.prems
          have "s' = s\<lparr>strm := st', opfs_writes := Suc (opfs_writes s)\<rparr>"
            by (simp add: receiveLoop_write_fails)
          with cc True show ?thesis by simp
        next
          case ok: True
          from less.prems receiveLoop_opfs[OF pos rd' True ok]
          have "receiveLoop env tid msize w
                 (s\<lparr>strm := st', file_bytes := file_bytes s @ chunk, opfs_writes := Suc (opfs_writes s),
                    remaining := remaining s - int (length chunk),
                    rapp := assign_if_present tid
                      (\<lambda>t. t\<lparr>tp_transferred := msize - (remaining s - int (length chunk))\<rparr>)
                      (rapp s)\<rparr>) = (x, s')" (is "receiveLoop _ _ _ _ ?s3 = _")
            by simp
          moreover have "nat (remaining ?s3) < nat (remaining s)" using len pos by simp
          ultimately show ?thesis using less.hyps[of ?s3] cc True by simp
        qed
      next
        case False
        from less.prems receiveLoop_memory[OF pos rd' False]
        have "receiveLoop env tid msize w
               (s\<lparr>strm := st', chunks := chunks s @ [chunk],
                  remaining := remaining s - int (length chunk),
                  rapp := assign_if_present tid
                    (\<lambda>t. t\<lparr>tp_transferred := msize - (remaining s - int (length chunk))\<rparr>)
                    (rapp s)\<rparr>) = (x, s')" (is "receiveLoop _ _ _ _ ?s3 = _")
          by simp
        moreover have "nat (remaining ?s3) < nat (remaining s)" using len pos by simp
        ultimately show ?thesis using less.hyps[of ?s3] cc False by simp
      qed
    qed
  qed
qed

text \<open>When the payload is on the stream and the storage accepts every write, the loop
  reads all of it, in pieces of at most \<^const>\<open>CHUNK_SIZE\<close> bytes.\<close>

lemma chunked_Nil: "chunked n [] = []"
  by (subst chunked.simps) simp

lemma chunked_Cons:
  "0 < n \<Longrightarrow> xs \<noteq> [] \<Longrightarrow> chunked n xs = take n xs # chunked n (drop n xs)"
  by (subst chunked.simps) simp

lemma concat_chunked: "0 < n \<Longrightarrow> concat (chunked n xs) = xs"
proof (induction "length xs" arbitrary: xs rule: less_induct)
  case less
  show ?case
  proof (cases "xs = []")
    case True
    then show ?thesis by (simp add: chunked_Nil)
  next
    case False
    with less.prems have "length (drop n xs) < length xs" by simp
    then have ih: "concat (chunked n (drop n xs)) = drop n xs"
      using less.prems by (rule less.hyps)
    have "chunked n xs = take n xs # chunked n (drop n xs)"
      using less.prems False by (rule chunked_Cons)
    then have "concat (chunked n xs) = take n xs @ concat (chunked n (drop n xs))"
      by (simp only: concat.simps)
    also have "\<dots> = take n xs @ drop n xs" by (simp only: ih)
    finally show ?thesis by simp
  qed
qed

lemma chunked_bounded: "c \<in> set (chunked n xs) \<Longrightarrow> c \<noteq> [] \<and> length c \<le> n"
proof (induction "length xs" arbitrary: xs rule: less_induct)
  case less
  show ?case
  proof (cases "n = 0 \<or> xs = []")
    case True
    have "chunked n xs = []" using True by (subst chunked.simps) simp
    with less.prems show ?thesis by simp
  next
    case False
    then have l: "length (drop n xs) < length xs" by simp
    from False have "0 < n" "xs \<noteq> []" by simp_all
    then have "chunked n xs = take n xs # chunked n (drop n xs)"
      by (rule chunked_Cons)
    with less.prems have "c = take n xs \<or> c \<in> set (chunked n (drop n xs))"
      by (simp only: set_ConsD list.set insert_iff)
    then show ?thesis
    proof
      assume "c = take n xs"
      with False show ?thesis by simp
    next
      assume "c \<in> set (chunked n (drop n xs))"
      with l show ?thesis by (rule less.hyps)
    qed
  qed
qed

lemma receiveLoop_complete:
  assumes "incoming (strm s) = payload @ rest"
    and "remaining s = int (length payload)"
    and "w \<longrightarrow> (\<forall>k. opfs_write_ok env k)"
  shows "\<exists>s'. receiveLoop env tid msize w s = (None, s') \<and>
              incoming (strm s') = rest \<and> remaining s' = 0 \<and>
              read_requests (strm s') =
                read_requests (strm s) @ map length (chunked CHUNK_SIZE payload) \<and>
              (if w then file_bytes s' = file_bytes s @ payload
               else concat (chunks s') = concat (chunks s) @ payload)"
  using assms
proof (induction "length payload" arbitrary: s payload rule: less_induct)
  case less
  show ?case
  proof (cases "payload = []")
    case True
    with less.prems show ?thesis by (simp add: receiveLoop_stop chunked_Nil)
  next
    case False
    let ?chunk = "take CHUNK_SIZE payload"
    let ?more = "drop CHUNK_SIZE payload"
    let ?n = "nat (min (remaining s) (int CHUNK_SIZE))"
    let ?st = "(strm s)\<lparr>incoming := ?more @ rest, read_requests := read_requests (strm s) @ [length ?chunk]\<rparr>"
    from False less.prems have pos: "remaining s > 0" by simp
    have n: "?n = length ?chunk" using less.prems(2) by (simp add: min_def)
    have "incoming (strm s) = ?chunk @ (?more @ rest)" using less.prems(1) by simp
    from read_prefix[OF this] have rd: "read ?n (strm s) = (Inr ?chunk, ?st)"
      unfolding n by simp
    have c0: "0 < length ?chunk" using False by (simp add: CHUNK_SIZE_def)
    define a where "a = assign_if_present tid
                      (\<lambda>t. t\<lparr>tp_transferred := msize - (remaining s - int (length ?chunk))\<rparr>) (rapp s)"
    define s3 where "s3 =
          (if w then s\<lparr>strm := ?st, file_bytes := file_bytes s @ ?chunk,
                       opfs_writes := Suc (opfs_writes s),
                       remaining := remaining s - int (length ?chunk), rapp := a\<rparr>
           else s\<lparr>strm := ?st, chunks := chunks s @ [?chunk],
                   remaining := remaining s - int (length ?chunk), rapp := a\<rparr>)"
    have step: "receiveLoop env tid msize w s = receiveLoop env tid msize w s3"
      using pos rd less.prems(3)
      by (cases w) (simp_all add: s3_def a_def receiveLoop_opfs receiveLoop_memory)
    have "length ?more < length payload" using False by (simp add: CHUNK_SIZE_def)
    moreover have "incoming (strm s3) = ?more @ rest" by (simp add: s3_def)
    moreover have "remaining s3 = int (length ?more)"
      using less.prems(2) by (simp add: s3_def)
    ultimately obtain s' where
      r: "receiveLoop env tid msize w s3 = (None, s')" and
      i: "incoming (strm s') = rest" "remaining s' = 0" and
      q: "read_requests (strm s') = read_requests (strm s3) @ map length (chunked CHUNK_SIZE ?more)" and
      c: "if w then file_bytes s' = file_bytes s3 @ ?more
          else concat (chunks s') = concat (chunks s3) @ ?more"
      using less.hyps[of ?more s3] less.prems(3) by metis
    have cs: "0 < CHUNK_SIZE" by (simp add: CHUNK_SIZE_def)
    have st3: "strm s3 = ?st" by (simp add: s3_def)
    have q': "read_requests (strm s') =
                read_requests (strm s) @ map length (chunked CHUNK_SIZE payload)"
      using q by (simp add: st3 chunked_Cons[OF cs False])
    have c': "if w then file_bytes s' = file_bytes s @ payload
              else concat (chunks s') = concat (chunks s) @ payload"
      using c by (cases w) (simp_all add: s3_def)
    from step r i q' c' show ?thesis by simp
  qed
qed

subsection \<open>The payload loop of the sender\<close>

lemma sendLoop_updates:
  assumes "map_of (transfers (sapp s)) tid = Some (t\<lparr>tp_transferred := int (offset s)\<rparr>)"
    and "sendLoop env tid f s = (x, s')"
  shows "\<exists>vs. history (sapp s') = history (sapp s) @ map (\<lambda>v. (tid, t\<lparr>tp_transferred := v\<rparr>)) vs \<and>
              sorted (int (offset s) # vs) \<and> (\<forall>v \<in> set vs. v \<le> int (length (bytes f))) \<and>
              map_of (transfers (sapp s')) tid =
                Some (t\<lparr>tp_transferred := last (int (offset s) # vs)\<rparr>) \<and>
              receivedFiles (sapp s') = receivedFiles (sapp s) \<and>
              map fst (transfers (sapp s')) = map fst (transfers (sapp s))"
  using assms
proof (induction "length (bytes f) - offset s" arbitrary: s rule: less_induct)
  case less
  show ?case
  proof (cases "offset s < length (bytes f)")
    case False
    with less.prems have "s' = s" by (simp add: sendLoop_stop)
    with less.prems show ?thesis by (intro exI[of _ "[]"]) simp
  next
    case lt: True
    show ?thesis
    proof (cases "slice_ok env (offset s)")
      case False
      with lt less.prems have "s' = s" by (simp add: sendLoop_slice_fails)
      with less.prems show ?thesis by (intro exI[of _ "[]"]) simp
    next
      case sl: True
      show ?thesis
      proof (cases "write_ok env (write_calls s)")
        case False
        with lt sl less.prems have "s' = s\<lparr>write_calls := Suc (write_calls s)\<rparr>"
          by (simp add: sendLoop_write_fails)
        with less.prems show ?thesis by (intro exI[of _ "[]"]) simp
      next
        case wr: True
        let ?chunk = "take CHUNK_SIZE (drop (offset s) (bytes f))"
        let ?v = "int (offset s + length ?chunk)"
        let ?a = "assign_if_present tid (\<lambda>t. t\<lparr>tp_transferred := ?v\<rparr>) (sapp s)"
        let ?s3 = "s\<lparr>written := written s @ [?chunk], write_calls := Suc (write_calls s),
                     offset := offset s + length ?chunk, sapp := ?a\<rparr>"
        have a: "?a = set_entry tid (t\<lparr>tp_transferred := ?v\<rparr>) (sapp s)"
          using less.prems(1) by (simp add: assign_if_present_Some)
        have len: "0 < length ?chunk" "offset s + length ?chunk \<le> length (bytes f)"
          using lt by (simp_all add: CHUNK_SIZE_def)
        have step: "sendLoop env tid f ?s3 = (x, s')"
          using less.prems(2) sendLoop_turn[OF lt sl wr] by simp
        have m3: "map_of (transfers (sapp ?s3)) tid = Some (t\<lparr>tp_transferred := int (offset ?s3)\<rparr>)"
          using a by (simp add: map_of_set_entry)
        have "length (bytes f) - offset ?s3 < length (bytes f) - offset s"
          using len lt by simp
        from less.hyps[OF this m3 step] obtain vs where
          h: "history (sapp s') = history (sapp ?s3) @ map (\<lambda>v. (tid, t\<lparr>tp_transferred := v\<rparr>)) vs"
          and so: "sorted (int (offset ?s3) # vs)" and le: "\<forall>v \<in> set vs. v \<le> int (length (bytes f))"
          and m: "map_of (transfers (sapp s')) tid =
                    Some (t\<lparr>tp_transferred := last (int (offset ?s3) # vs)\<rparr>)"
          and rf: "receivedFiles (sapp s') = receivedFiles (sapp ?s3)"
          and ks: "map fst (transfers (sapp s')) = map fst (transfers (sapp ?s3))"
          by blast
        have h': "history (sapp s') =
                    history (sapp s) @ map (\<lambda>v. (tid, t\<lparr>tp_transferred := v\<rparr>)) (?v # vs)"
          using h a by (simp add: set_entry_simps)
        have so': "sorted (int (offset s) # ?v # vs)"
          using so by fastforce
        have le': "\<forall>u \<in> set (?v # vs). u \<le> int (length (bytes f))"
          using le len by simp
        have m': "map_of (transfers (sapp s')) tid =
                    Some (t\<lparr>tp_transferred := last (int (offset s) # ?v # vs)\<rparr>)"
          using m by simp
        have rf': "receivedFiles (sapp s') = receivedFiles (sapp s)"
          using rf a by (simp add: set_entry_simps)
        have ks': "map fst (transfers (sapp s')) = map fst (transfers (sapp s))"
          using ks a keys_set_entry_present[OF less.prems(1)] by simp
        from h' so' le' m' rf' ks' show ?thesis by blast
      qed
    qed
  qed
qed

lemma sendLoop_frame:
  assumes "sendLoop env tid f s = (x, s')"
  shows "dialed s' = dialed s \<and> out_close_calls s' = out_close_calls s"
  using assms
proof (induction "length (bytes f) - offset s" arbitrary: s rule: less_induct)
  case less
  show ?case
  proof (cases "offset s < length (bytes f) \<and> slice_ok env (offset s) \<and> write_ok env (write_calls s)")
    case False
    then consider "\<not> offset s < length (bytes f)"
      | "offset s < length (bytes f)" "\<not> slice_ok env (offset s)"
      | "offset s < length (bytes f)" "slice_ok env (offset s)" "\<not> write_ok env (write_calls s)"
      by blast
    then show ?thesis
    proof cases
      case 1
      with less.prems show ?thesis by (simp add: sendLoop_stop)
    next
      case 2
      with less.prems show ?thesis by (simp add: sendLoop_slice_fails)
    next
      case 3
      with less.prems have "s' = s\<lparr>write_calls := Suc (write_calls s)\<rparr>"
        by (simp add: sendLoop_write_fails)
      then show ?thesis by simp
    qed
  next
    case True
    then have lt: "offset s < length (bytes f)" and sl: "slice_ok env (offset s)"
      and wr: "write_ok env (write_calls s)" by simp_all
    let ?chunk = "take CHUNK_SIZE (drop (offset s) (bytes f))"
    let ?s3 = "s\<lparr>written := written s @ [?chunk], write_calls := Suc (write_calls s),
                 offset := offset s + length ?chunk,
                 sapp := assign_if_present tid
                    (\<lambda>t. t\<lparr>tp_transferred := int (offset s + length ?chunk)\<rparr>) (sapp s)\<rparr>"
    have step: "sendLoop env tid f ?s3 = (x, s')"
      using less.prems sendLoop_turn[OF lt sl wr] by simp
    have "length (bytes f) - offset ?s3 < length (bytes f) - offset s"
      using lt by (simp add: CHUNK_SIZE_def)
    from less.hyps[OF this step] show ?thesis by simp
  qed
qed

text \<open>With a stream that accepts every write and a file that can be read, the loop
  writes the rest of the file in pieces of \<^const>\<open>CHUNK_SIZE\<close> bytes.\<close>

lemma sendLoop_complete:
  assumes "\<forall>k. write_ok env k" and "\<forall>k. slice_ok env k"
  shows "\<exists>s'. sendLoop env tid f s = (None, s') \<and>
              written s' = written s @ chunked CHUNK_SIZE (drop (offset s) (bytes f))"
proof (induction "length (bytes f) - offset s" arbitrary: s rule: less_induct)
  case less
  have cs: "0 < CHUNK_SIZE" by (simp add: CHUNK_SIZE_def)
  show ?case
  proof (cases "offset s < length (bytes f)")
    case False
    then show ?thesis by (simp add: sendLoop_stop chunked_Nil)
  next
    case lt: True
    let ?rest = "drop (offset s) (bytes f)"
    let ?chunk = "take CHUNK_SIZE ?rest"
    let ?s3 = "s\<lparr>written := written s @ [?chunk], write_calls := Suc (write_calls s),
                 offset := offset s + length ?chunk,
                 sapp := assign_if_present tid
                    (\<lambda>t. t\<lparr>tp_transferred := int (offset s + length ?chunk)\<rparr>) (sapp s)\<rparr>"
    from assms have sl: "slice_ok env (offset s)" and wr: "write_ok env (write_calls s)"
      by simp_all
    have step: "sendLoop env tid f s = sendLoop env tid f ?s3"
      by (rule sendLoop_turn[OF lt sl wr])
    have "length (bytes f) - offset ?s3 < length (bytes f) - offset s"
      using lt by (simp add: CHUNK_SIZE_def)
    from less.hyps[OF this] obtain s' where
      r: "sendLoop env tid f ?s3 = (None, s')" and
      w: "written s' = written ?s3 @ chunked CHUNK_SIZE (drop (offset ?s3) (bytes f))"
      by blast
    from lt have ne: "?rest \<noteq> []" by simp
    have d: "drop (offset ?s3) (bytes f) = drop CHUNK_SIZE ?rest"
    proof -
      have "length ?chunk = min CHUNK_SIZE (length ?rest)" by simp
      show ?thesis
      proof (cases "CHUNK_SIZE \<le> length ?rest")
        case True
        then show ?thesis by (simp add: add.commute min_def)
      next
        case False
        then show ?thesis by simp
      qed
    qed
    have "written s' = written s @ chunked CHUNK_SIZE ?rest"
      using w unfolding d by (simp add: chunked_Cons[OF cs ne])
    with step r show ?thesis by simp
  qed
qed

subsection \<open>The registry writes of one inbound transfer\<close>

lemma readHeader_close_calls:
  "readHeader P st = (r, st') \<Longrightarrow> close_calls st' = close_calls st"
  by (auto simp: readHeader_def Let_def read_def split: if_splits parsed.splits)

lemma finalize_cases:
  assumes "map_of (transfers (rapp s)) tid = Some t" and "finalize env tid m w s = (x, s')"
  shows "(w \<and> \<not> opfs_finalize_ok env \<and> x = Some StorageError \<and> s' = s) \<or>
         ((w \<longrightarrow> opfs_finalize_ok env) \<and>
          x = (if stream_close_ok env then None else Some StreamError) \<and>
          s' = s\<lparr>rapp := (set_entry tid (t\<lparr>tp_status := completed\<rparr>) (rapp s))
                            \<lparr>receivedFiles := receivedFiles (rapp s) @
                               [\<lparr>rf_filename = meta_filename m,
                                 rf_blob = (if w then file_bytes s else concat (chunks s))\<rparr>]\<rparr>,
                 strm := (strm s)\<lparr>close_calls := Suc (close_calls (strm s))\<rparr>\<rparr>)"
  using assms
  by (auto simp: finalize_def Let_def assign_Some set_entry_simps split: if_splits)

lemma receiving_zero: "(receiving tid m)\<lparr>tp_transferred := 0\<rparr> = receiving tid m"
  by (simp add: receiving_def)

text \<open>What the loop leaves behind, started as \<^const>\<open>receiveBody\<close> starts it.\<close>

lemma receiveBody_loop:
  assumes "(case meta_size m of
              None \<Rightarrow> (None, s2)
            | Some n \<Rightarrow> receiveLoop env tid n w (s2\<lparr>remaining := n\<rparr>)) = (x, s3)"
    and "map_of (transfers (rapp s2)) tid = Some (receiving tid m)"
  shows "\<exists>vs. history (rapp s3) =
                history (rapp s2) @ map (\<lambda>v. (tid, (receiving tid m)\<lparr>tp_transferred := v\<rparr>)) vs \<and>
              sorted (0 # vs) \<and> (\<forall>v \<in> set vs. \<exists>n. meta_size m = Some n \<and> v \<le> n) \<and>
              map_of (transfers (rapp s3)) tid =
                Some ((receiving tid m)\<lparr>tp_transferred := last (0 # vs)\<rparr>) \<and>
              receivedFiles (rapp s3) = receivedFiles (rapp s2) \<and>
              map fst (transfers (rapp s3)) = map fst (transfers (rapp s2)) \<and>
              close_calls (strm s3) = close_calls (strm s2) \<and>
              opfs_acquisitions s3 = opfs_acquisitions s2"
proof (cases "meta_size m")
  case None
  with assms have "s3 = s2" by simp
  with assms(2) show ?thesis by (intro exI[of _ "[]"]) (simp add: receiving_zero)
next
  case (Some n)
  let ?s = "s2\<lparr>remaining := n\<rparr>"
  from Some assms(1) have run: "receiveLoop env tid n w ?s = (x, s3)" by simp
  have m: "map_of (transfers (rapp ?s)) tid =
             Some ((receiving tid m)\<lparr>tp_transferred := n - remaining ?s\<rparr>)"
    using assms(2) by (simp add: receiving_zero)
  have "remaining ?s \<le> n" by simp
  from receiveLoop_updates[OF m this run] obtain vs where
    "history (rapp s3) = history (rapp ?s) @ map (\<lambda>v. (tid, (receiving tid m)\<lparr>tp_transferred := v\<rparr>)) vs"
    "sorted ((n - remaining ?s) # vs)" "\<forall>v \<in> set vs. v \<le> n"
    "map_of (transfers (rapp s3)) tid =
       Some ((receiving tid m)\<lparr>tp_transferred := last ((n - remaining ?s) # vs)\<rparr>)"
    "receivedFiles (rapp s3) = receivedFiles (rapp ?s)"
    "map fst (transfers (rapp s3)) = map fst (transfers (rapp ?s))"
    by metis
  moreover note receiveLoop_frame[OF run]
  ultimately show ?thesis using Some by (intro exI[of _ vs]) simp
qed

text \<open>
  The writes of one \<^const>\<open>handleIncomingTransfer\<close>: a failed header leaves the error
  entry alone; otherwise the entry created as \<open>transferring\<close>, its progress updates, and
  at the end the error entry, the completed entry, or both when \<^verbatim>\<open>stream.close()\<close> fails.
\<close>

lemma handleIncomingTransfer_writes:
  fixes P env tid st a
  defines "r \<equiv> handleIncomingTransfer P env tid st a"
  shows "(\<exists>e st1. readHeader P st = (Inl e, st1) \<and>
            history (rapp r) = history a @ [(tid, failed tid e)] \<and>
            close_calls (strm r) = close_calls st \<and> opfs_acquisitions r = 0 \<and>
            receivedFiles (rapp r) = receivedFiles a) \<or>
         (\<exists>m st1 vs fin. readHeader P st = (Inr m, st1) \<and>
            history (rapp r) =
              history a @ (tid, receiving tid m) #
                map (\<lambda>v. (tid, (receiving tid m)\<lparr>tp_transferred := v\<rparr>)) vs @ map (Pair tid) fin \<and>
            sorted (0 # vs) \<and> (\<forall>v \<in> set vs. \<exists>n. meta_size m = Some n \<and> v \<le> n) \<and>
            opfs_acquisitions r = 1 \<and>
            ((\<exists>e. fin = [failed tid e] \<and> close_calls (strm r) = close_calls st \<and>
                   receivedFiles (rapp r) = receivedFiles a) \<or>
             (fin = [(receiving tid m)\<lparr>tp_transferred := last (0 # vs), tp_status := completed\<rparr>] \<and>
                stream_close_ok env \<and> close_calls (strm r) = Suc (close_calls st)) \<or>
             (fin = [(receiving tid m)\<lparr>tp_transferred := last (0 # vs), tp_status := completed\<rparr>,
                     failed tid StreamError] \<and>
                \<not> stream_close_ok env \<and> close_calls (strm r) = Suc (close_calls st))))"
proof -
  obtain h st1 where hd: "readHeader P st = (h, st1)" by (cases "readHeader P st")
  note cc = readHeader_close_calls[OF hd]
  show ?thesis
  proof (cases h)
    case (Inl e)
    with hd have "r = (start st a)\<lparr>strm := st1, rapp := set_entry tid (failed tid e) a\<rparr>"
      by (simp add: r_def handleIncomingTransfer_def receiveTry_def start_def)
    with hd Inl cc show ?thesis by (simp add: start_def set_entry_simps)
  next
    case (Inr m)
    let ?w = "opfs_available env"
    let ?s2 = "(start st a)\<lparr>strm := st1, rapp := set_entry tid (receiving tid m) a,
                             opfs_acquisitions := Suc 0\<rparr>"
    obtain x s3 where lp: "(case meta_size m of
              None \<Rightarrow> (None, ?s2)
            | Some n \<Rightarrow> receiveLoop env tid n ?w (?s2\<lparr>remaining := n\<rparr>)) = (x, s3)"
      by (cases "case meta_size m of
              None \<Rightarrow> (None, ?s2)
            | Some n \<Rightarrow> receiveLoop env tid n ?w (?s2\<lparr>remaining := n\<rparr>)")
    have body: "receiveTry P env tid (start st a) =
                  (case x of Some e \<Rightarrow> (Some e, s3) | None \<Rightarrow> finalize env tid m ?w s3)"
      using hd Inr lp
      by (simp add: receiveTry_def receiveBody_def Let_def start_def split: option.splits)
    have "map_of (transfers (rapp ?s2)) tid = Some (receiving tid m)"
      by (simp add: map_of_set_entry)
    from receiveBody_loop[OF lp this] obtain vs where
      h3: "history (rapp s3) =
             history a @ (tid, receiving tid m) #
               map (\<lambda>v. (tid, (receiving tid m)\<lparr>tp_transferred := v\<rparr>)) vs"
      and so: "sorted (0 # vs)" and le: "\<forall>v \<in> set vs. \<exists>n. meta_size m = Some n \<and> v \<le> n"
      and m3: "map_of (transfers (rapp s3)) tid =
                 Some ((receiving tid m)\<lparr>tp_transferred := last (0 # vs)\<rparr>)"
      and rf3: "receivedFiles (rapp s3) = receivedFiles a"
      and cc3: "close_calls (strm s3) = close_calls st1"
      and aq3: "opfs_acquisitions s3 = 1"
      by (auto simp: set_entry_simps start_def)
    let ?done = "(receiving tid m)\<lparr>tp_transferred := last (0 # vs), tp_status := completed\<rparr>"
    have "\<exists>fin. history (rapp r) = history (rapp s3) @ map (Pair tid) fin \<and>
            opfs_acquisitions r = 1 \<and>
            ((\<exists>e. fin = [failed tid e] \<and> close_calls (strm r) = close_calls st \<and>
                   receivedFiles (rapp r) = receivedFiles a) \<or>
             (fin = [?done] \<and> stream_close_ok env \<and> close_calls (strm r) = Suc (close_calls st)) \<or>
             (fin = [?done, failed tid StreamError] \<and>
                \<not> stream_close_ok env \<and> close_calls (strm r) = Suc (close_calls st)))"
    proof (cases x)
      case (Some e)
      with body have "r = s3\<lparr>rapp := set_entry tid (failed tid e) (rapp s3)\<rparr>"
        by (simp add: r_def handleIncomingTransfer_def)
      with cc cc3 rf3 aq3 show ?thesis
        by (intro exI[of _ "[failed tid e]"]) (auto simp: set_entry_simps)
    next
      case None
      obtain y s4 where fz: "finalize env tid m ?w s3 = (y, s4)"
        by (cases "finalize env tid m ?w s3")
      from finalize_cases[OF m3 fz]
      consider (store) "y = Some StorageError" "s4 = s3"
        | (closed) "y = (if stream_close_ok env then None else Some StreamError)"
            "s4 = s3\<lparr>rapp := (set_entry tid ?done (rapp s3))
                            \<lparr>receivedFiles := receivedFiles (rapp s3) @
                               [\<lparr>rf_filename = meta_filename m,
                                 rf_blob = (if ?w then file_bytes s3 else concat (chunks s3))\<rparr>]\<rparr>,
                 strm := (strm s3)\<lparr>close_calls := Suc (close_calls (strm s3))\<rparr>\<rparr>"
        by auto
      then show ?thesis
      proof cases
        case store
        with body None fz have "r = s3\<lparr>rapp := set_entry tid (failed tid StorageError) (rapp s3)\<rparr>"
          by (simp add: r_def handleIncomingTransfer_def)
        with cc cc3 rf3 aq3 show ?thesis
          by (intro exI[of _ "[failed tid StorageError]"]) (auto simp: set_entry_simps)
      next
        case closed
        show ?thesis
        proof (cases "stream_close_ok env")
          case True
          with closed body None fz have "r = s4"
            by (simp add: r_def handleIncomingTransfer_def)
          with closed True cc cc3 aq3 show ?thesis
            by (intro exI[of _ "[?done]"]) (simp add: set_entry_simps)
        next
          case False
          with closed body None fz
          have "r = s4\<lparr>rapp := set_entry tid (failed tid StreamError) (rapp s4)\<rparr>"
            by (simp add: r_def handleIncomingTransfer_def)
          with closed False cc cc3 aq3 show ?thesis
            by (intro exI[of _ "[?done, failed tid StreamError]"]) (simp add: set_entry_simps)
        qed
      qed
    qed
    then obtain fin where
      "history (rapp r) = history (rapp s3) @ map (Pair tid) fin"
      "opfs_acquisitions r = 1"
      "(\<exists>e. fin = [failed tid e] \<and> close_calls (strm r) = close_calls st \<and>
                   receivedFiles (rapp r) = receivedFiles a) \<or>
             (fin = [?done] \<and> stream_close_ok env \<and> close_calls (strm r) = Suc (close_calls st)) \<or>
             (fin = [?done, failed tid StreamError] \<and>
                \<not> stream_close_ok env \<and> close_calls (strm r) = Suc (close_calls st))"
      by blast
    with hd Inr h3 so le show ?thesis
      by (intro disjI2 exI[of _ m] exI[of _ st1] exI[of _ vs] exI[of _ fin]) simp
  qed
qed

subsection \<open>The registry writes of one outbound transfer\<close>

lemma transferring_zero:
  "tp_transferred t = 0 \<Longrightarrow> t\<lparr>tp_status := transferring, tp_transferred := 0\<rparr> = t\<lparr>tp_status := transferring\<rparr>"
  by (cases t) simp

lemma stream_write_cases:
  "stream_write env buf s =
     (if write_ok env (write_calls s)
      then (None, s\<lparr>written := written s @ [buf], write_calls := Suc (write_calls s)\<rparr>)
      else (Some StreamError, s\<lparr>write_calls := Suc (write_calls s)\<rparr>))"
  by (simp add: stream_write_def)

lemma sendPayload_writes:
  fixes t :: FileTransferProgress
  defines "T \<equiv> t\<lparr>tp_status := transferring\<rparr>"
  assumes present: "map_of (transfers (sapp s)) tid = Some t" and zero: "tp_transferred t = 0"
    and run: "sendPayload env tid f lenBuf metaBytes s = (x, s')"
  shows "\<exists>vs. history (sapp s') =
                history (sapp s) @ (tid, T) # map (\<lambda>v. (tid, T\<lparr>tp_transferred := v\<rparr>)) vs @
                  (if x = None
                   then [(tid, T\<lparr>tp_transferred := last (0 # vs), tp_status := completed\<rparr>)]
                   else []) \<and>
              sorted (0 # vs) \<and> (\<forall>v \<in> set vs. v \<le> int (length (bytes f))) \<and>
              map_of (transfers (sapp s')) tid =
                Some (if x = None
                      then T\<lparr>tp_transferred := last (0 # vs), tp_status := completed\<rparr>
                      else T\<lparr>tp_transferred := last (0 # vs)\<rparr>)"
proof -
  define s1 where "s1 = s\<lparr>sapp := set_entry tid T (sapp s)\<rparr>"
  have T0: "T\<lparr>tp_transferred := 0\<rparr> = T"
    using zero unfolding T_def by (rule transferring_zero)
  have m1: "map_of (transfers (sapp s1)) tid = Some T" and h1: "history (sapp s1) = history (sapp s) @ [(tid, T)]"
    by (simp_all add: s1_def set_entry_simps update_conv')
  have start: "sendPayload env tid f lenBuf metaBytes s =
      (case stream_write env lenBuf s1 of
         (Some e, s2) \<Rightarrow> (Some e, s2)
       | (None, s2) \<Rightarrow>
           (case stream_write env metaBytes s2 of
              (Some e, s3) \<Rightarrow> (Some e, s3)
            | (None, s3) \<Rightarrow>
                (case sendLoop env tid f (s3\<lparr>offset := 0\<rparr>) of
                   (Some e, s4) \<Rightarrow> (Some e, s4)
                 | (None, s4) \<Rightarrow>
                     (let s5 = s4\<lparr>out_close_calls := Suc (out_close_calls s4)\<rparr>
                      in if \<not> close_ok env then (Some StreamError, s5)
                         else (case assign tid (\<lambda>t. t\<lparr>tp_status := completed\<rparr>) (sapp s5) of
                                 Inl e \<Rightarrow> (Some e, s5)
                               | Inr a' \<Rightarrow> (None, s5\<lparr>sapp := a'\<rparr>))))))"
    using present by (simp add: sendPayload_def assign_Some s1_def T_def)
  have early: ?thesis if "x \<noteq> None" "sapp s' = sapp s1"
    using that m1 h1 T0 by (intro exI[of _ "[]"]) simp
  show ?thesis
  proof (cases "write_ok env (write_calls s1)")
    case False
    with run start have "x = Some StreamError" "s' = s1\<lparr>write_calls := Suc (write_calls s1)\<rparr>"
      by (simp_all add: stream_write_cases)
    then show ?thesis by (intro early) simp_all
  next
    case w1: True
    define s2 where "s2 = s1\<lparr>written := written s1 @ [lenBuf], write_calls := Suc (write_calls s1)\<rparr>"
    show ?thesis
    proof (cases "write_ok env (write_calls s2)")
      case False
      with run start w1 have "x = Some StreamError" "s' = s2\<lparr>write_calls := Suc (write_calls s2)\<rparr>"
        by (simp_all add: stream_write_cases s2_def)
      then show ?thesis by (intro early) (simp_all add: s2_def)
    next
      case w2: True
      define s3 where "s3 = s2\<lparr>written := written s2 @ [metaBytes], write_calls := Suc (write_calls s2)\<rparr>"
      obtain y s4 where lp: "sendLoop env tid f (s3\<lparr>offset := 0\<rparr>) = (y, s4)"
        by (cases "sendLoop env tid f (s3\<lparr>offset := 0\<rparr>)")
      have a3: "sapp (s3\<lparr>offset := 0\<rparr>) = sapp s1" by (simp add: s3_def s2_def)
      have "map_of (transfers (sapp (s3\<lparr>offset := 0\<rparr>))) tid =
              Some (T\<lparr>tp_transferred := int (offset (s3\<lparr>offset := 0\<rparr>))\<rparr>)"
        using m1 T0 unfolding a3 by simp
      from sendLoop_updates[OF this lp] obtain vs where
        h4: "history (sapp s4) = history (sapp s1) @ map (\<lambda>v. (tid, T\<lparr>tp_transferred := v\<rparr>)) vs"
        and so: "sorted (0 # vs)" and le: "\<forall>v \<in> set vs. v \<le> int (length (bytes f))"
        and m4: "map_of (transfers (sapp s4)) tid = Some (T\<lparr>tp_transferred := last (0 # vs)\<rparr>)"
        unfolding a3 by auto
      define lv where "lv = last (0 # vs)"
      note m4' = m4[folded lv_def]
      have run': "(x, s') =
         (case (y, s4) of
            (Some e, s4) \<Rightarrow> (Some e, s4)
          | (None, s4) \<Rightarrow>
              (let s5 = s4\<lparr>out_close_calls := Suc (out_close_calls s4)\<rparr>
               in if \<not> close_ok env then (Some StreamError, s5)
                  else (case assign tid (\<lambda>t. t\<lparr>tp_status := completed\<rparr>) (sapp s5) of
                          Inl e \<Rightarrow> (Some e, s5)
                        | Inr a' \<Rightarrow> (None, s5\<lparr>sapp := a'\<rparr>))))"
        using run w1 w2 unfolding start lp[symmetric]
        by (simp add: stream_write_cases s2_def[symmetric] s3_def[symmetric])
      have fail: ?thesis if "x \<noteq> None" "sapp s' = sapp s4"
        using that h4 h1 so le m4 by (intro exI[of _ vs]) simp
      show ?thesis
      proof (cases y)
        case (Some e)
        with run' show ?thesis by (intro fail) simp_all
      next
        case None
        show ?thesis
        proof (cases "close_ok env")
          case False
          with None run' show ?thesis by (intro fail) simp_all
        next
          case True
          have "assign tid (\<lambda>t. t\<lparr>tp_status := completed\<rparr>)
                  (sapp (s4\<lparr>out_close_calls := Suc (out_close_calls s4)\<rparr>)) =
                Inr (set_entry tid (T\<lparr>tp_transferred := lv, tp_status := completed\<rparr>) (sapp s4))"
            using m4' by (simp add: assign_Some)
          with True None run' have "x = None" and
            "sapp s' = set_entry tid (T\<lparr>tp_transferred := lv, tp_status := completed\<rparr>) (sapp s4)"
            by (simp_all add: Let_def)
          with h4 h1 so le show ?thesis
            unfolding lv_def by (intro exI[of _ vs]) (simp add: set_entry_simps update_conv')
        qed
      qed
    qed
  qed
qed

lemma sendTry_cases:
  "sendTry P env tid f peer s = (Some ImportError, s) \<or>
   sendTry P env tid f peer s = (Some NotConnected, s) \<or>
   sendTry P env tid f peer s = (Some DialError, s) \<or>
   (\<exists>addr. sendTry P env tid f peer s =
      sendPayload env tid f (setUint32 (length (JSON_stringify P (name f) (length (bytes f)))))
        (JSON_stringify P (name f) (length (bytes f))) (s\<lparr>dialed := Some addr\<rparr>))"
  by (auto simp: sendTry_def Let_def split: list.splits)

text \<open>
  The writes of one \<^const>\<open>sendFile\<close>: none without a node; otherwise the entry created
  as \<open>pending\<close>, then either the error alone, or \<open>transferring\<close>, the progress updates
  and the final \<open>completed\<close> or \<open>error\<close>.
\<close>

lemma sendFile_writes:
  fixes tid f
  defines "S \<equiv> sending tid f"
  defines "T \<equiv> (sending tid f)\<lparr>tp_status := transferring\<rparr>"
  assumes run: "sendFile P env tid f peer a = (x, ss)"
  shows "(\<not> node_ready env \<and> x = Some NodeNotInitialized \<and> history (sapp ss) = history a) \<or>
         (\<exists>e. x = Some e \<and>
            history (sapp ss) =
              history a @ [(tid, S), (tid, S\<lparr>tp_status := error, tp_error := Some e\<rparr>)]) \<or>
         (\<exists>vs fin. history (sapp ss) =
              history a @ (tid, S) # (tid, T) #
                map (\<lambda>v. (tid, T\<lparr>tp_transferred := v\<rparr>)) vs @ [(tid, fin)] \<and>
            sorted (0 # vs) \<and> (\<forall>v \<in> set vs. v \<le> int (length (bytes f))) \<and>
            ((x = None \<and> fin = T\<lparr>tp_transferred := last (0 # vs), tp_status := completed\<rparr>) \<or>
             (\<exists>e. x = Some e \<and>
                fin = T\<lparr>tp_transferred := last (0 # vs), tp_status := error, tp_error := Some e\<rparr>)))"
proof (cases "node_ready env")
  case False
  with run show ?thesis by (auto simp: sendFile_def)
next
  case True
  define s1 where "s1 = \<lparr>sapp = set_entry tid S a, dialed = None, written = [], write_calls = 0,
                         out_close_calls = 0, offset = 0\<rparr>"
  obtain y s2 where tr: "sendTry P env tid f peer s1 = (y, s2)"
    by (cases "sendTry P env tid f peer s1")
  have res: "(x, ss) =
     (case y of
        None \<Rightarrow> (None, s2)
      | Some err \<Rightarrow>
          (Some err,
           s2\<lparr>sapp := assign_if_present tid
                        (\<lambda>t. t\<lparr>tp_status := error, tp_error := Some err\<rparr>) (sapp s2)\<rparr>))"
    using run True tr by (simp add: sendFile_def s1_def S_def split: option.splits)
  have m1: "map_of (transfers (sapp s1)) tid = Some S"
    and h1: "history (sapp s1) = history a @ [(tid, S)]"
    by (simp_all add: s1_def set_entry_simps update_conv')
  have early: ?thesis if "y = Some e" "s2 = s1" for e
  proof -
    from that res have "x = Some e" and
      "sapp ss = set_entry tid (S\<lparr>tp_status := error, tp_error := Some e\<rparr>) (sapp s1)"
      using m1 by (simp_all add: assign_if_present_Some)
    with h1 show ?thesis by (simp add: set_entry_simps)
  qed
  from sendTry_cases[of P env tid f peer s1] tr
  consider "y = Some ImportError" "s2 = s1" | "y = Some NotConnected" "s2 = s1"
    | "y = Some DialError" "s2 = s1"
    | addr lenBuf metaBytes where
        "sendPayload env tid f lenBuf metaBytes (s1\<lparr>dialed := Some addr\<rparr>) = (y, s2)"
    by auto
  then show ?thesis
  proof cases
    case 4
    have "map_of (transfers (sapp (s1\<lparr>dialed := Some addr\<rparr>))) tid = Some S"
      using m1 by simp
    moreover have "tp_transferred S = 0" by (simp add: S_def sending_def)
    ultimately obtain vs where
      h2: "history (sapp s2) =
             history (sapp s1) @ (tid, T) # map (\<lambda>v. (tid, T\<lparr>tp_transferred := v\<rparr>)) vs @
               (if y = None
                then [(tid, T\<lparr>tp_transferred := last (0 # vs), tp_status := completed\<rparr>)]
                else [])"
      and so: "sorted (0 # vs)" and le: "\<forall>v \<in> set vs. v \<le> int (length (bytes f))"
      and m2: "map_of (transfers (sapp s2)) tid =
                 Some (if y = None
                       then T\<lparr>tp_transferred := last (0 # vs), tp_status := completed\<rparr>
                       else T\<lparr>tp_transferred := last (0 # vs)\<rparr>)"
      using sendPayload_writes[OF _ _ 4] unfolding T_def S_def by auto
    define lv where "lv = last (0 # vs)"
    note h2' = h2[folded lv_def] and m2' = m2[folded lv_def]
    show ?thesis
    proof (cases y)
      case None
      with res have "x = None" "ss = s2" by simp_all
      with None h2' h1 so le show ?thesis
        by (intro disjI2 exI[of _ vs] exI[of _ "T\<lparr>tp_transferred := lv, tp_status := completed\<rparr>"])
           (simp add: lv_def)
    next
      case (Some e)
      with m2' have "map_of (transfers (sapp s2)) tid = Some (T\<lparr>tp_transferred := lv\<rparr>)" by simp
      with Some res have "x = Some e" and
        "sapp ss = set_entry tid (T\<lparr>tp_transferred := lv, tp_status := error, tp_error := Some e\<rparr>) (sapp s2)"
        by (simp_all add: assign_if_present_Some)
      with Some h2' h1 so le show ?thesis
        by (intro disjI2 exI[of _ vs]
              exI[of _ "T\<lparr>tp_transferred := lv, tp_status := error, tp_error := Some e\<rparr>"])
           (simp add: set_entry_simps lv_def)
    qed
  qed (rule early; assumption)+
qed

text \<open>What a sender without failures puts on the stream.\<close>

lemma sendFile_wire:
  assumes "node_ready env" "import_ok env" "dial_ok env" "close_ok env"
    and "\<forall>k. write_ok env k" "\<forall>k. slice_ok env k"
    and "\<exists>c \<in> set (connections env). remotePeer c = peer"
  shows "\<exists>ss. sendFile P env tid f peer a = (None, ss) \<and>
           written ss =
             [setUint32 (length (JSON_stringify P (name f) (length (bytes f)))),
              JSON_stringify P (name f) (length (bytes f))] @ chunked CHUNK_SIZE (bytes f) \<and>
           out_close_calls ss = 1"
proof -
  let ?meta = "JSON_stringify P (name f) (length (bytes f))"
  define s1 where "s1 = \<lparr>sapp = set_entry tid (sending tid f) a, dialed = None, written = [],
                         write_calls = 0, out_close_calls = 0, offset = 0\<rparr>"
  from assms(7) have ne: "filter (\<lambda>c. remotePeer c = peer) (connections env) \<noteq> []"
    by (auto simp: filter_empty_conv)
  then obtain c cs where fl: "filter (\<lambda>c. remotePeer c = peer) (connections env) = c # cs"
    by (cases "filter (\<lambda>c. remotePeer c = peer) (connections env)") auto
  define addr where "addr = remoteAddr (case find webrtc (c # cs) of Some c' \<Rightarrow> c' | None \<Rightarrow> c)"
  have tr: "sendTry P env tid f peer s1 =
           sendPayload env tid f (setUint32 (length ?meta)) ?meta (s1\<lparr>dialed := Some addr\<rparr>)"
    using assms(2,3) fl by (simp add: sendTry_def Let_def addr_def)
  define s3 where "s3 = s1\<lparr>dialed := Some addr,
     sapp := set_entry tid ((sending tid f)\<lparr>tp_status := transferring\<rparr>) (sapp s1),
     written := [setUint32 (length ?meta), ?meta], write_calls := 2, offset := 0\<rparr>"
  from sendLoop_complete[OF assms(5,6), of tid f s3] obtain s4 where
    lp: "sendLoop env tid f s3 = (None, s4)" and
    w4: "written s4 = written s3 @ chunked CHUNK_SIZE (drop (offset s3) (bytes f))"
    by blast
  have m3: "map_of (transfers (sapp s3)) tid =
              Some (((sending tid f)\<lparr>tp_status := transferring\<rparr>)\<lparr>tp_transferred := int (offset s3)\<rparr>)"
    by (simp add: s3_def set_entry_simps update_conv' sending_def)
  from sendLoop_updates[OF m3 lp] obtain t4 where m4: "map_of (transfers (sapp s4)) tid = Some t4"
    by blast
  note fr = sendLoop_frame[OF lp]
  have m1: "map_of (transfers (sapp s1)) tid = Some (sending tid f)"
    by (simp add: s1_def set_entry_simps update_conv')
  have "sendPayload env tid f (setUint32 (length ?meta)) ?meta (s1\<lparr>dialed := Some addr\<rparr>) =
          (None, s4\<lparr>out_close_calls := Suc (out_close_calls s4),
                    sapp := set_entry tid (t4\<lparr>tp_status := completed\<rparr>) (sapp s4)\<rparr>)"
    using assms(4,5) m1 m4 lp
    by (simp add: sendPayload_def assign_Some stream_write_cases s3_def s1_def Let_def
          numeral_2_eq_2)
  with tr assms(1) have "sendFile P env tid f peer a =
          (None, s4\<lparr>out_close_calls := Suc (out_close_calls s4),
                    sapp := set_entry tid (t4\<lparr>tp_status := completed\<rparr>) (sapp s4)\<rparr>)"
    by (simp add: sendFile_def s1_def)
  moreover have "written s4 = [setUint32 (length ?meta), ?meta] @ chunked CHUNK_SIZE (bytes f)"
    using w4 by (simp add: s3_def)
  moreover have "out_close_calls s4 = 0" using fr by (simp add: s3_def s1_def)
  ultimately show ?thesis by simp
qed

subsection \<open>Receiving a well-formed stream\<close>

lemma readHeader_wellformed:
  assumes "incoming st = setUint32 (length meta) @ meta @ after"
    and "length meta \<le> 10000"
  shows "readHeader P st =
           ((case JSON_parse P meta of
               ParseThrows \<Rightarrow> Inl SyntaxError
             | ParsedNull \<Rightarrow> Inl TypeError
             | Parsed m \<Rightarrow> Inr m),
            st\<lparr>incoming := after, read_requests := read_requests st @ [4, length meta]\<rparr>)"
proof -
  let ?st1 = "st\<lparr>incoming := meta @ after, read_requests := read_requests st @ [4]\<rparr>"
  have r1: "read 4 st = (Inr (setUint32 (length meta)), ?st1)"
    using read_prefix[OF assms(1)] by (simp add: length_setUint32)
  have "incoming ?st1 = meta @ after" by simp
  from read_prefix[OF this]
  have r2: "read (length meta) ?st1 =
              (Inr meta, st\<lparr>incoming := after, read_requests := read_requests st @ [4, length meta]\<rparr>)"
    by simp
  from assms(2) have "length meta < 2 ^ 32" by simp
  then have g: "getUint32 (setUint32 (length meta)) = length meta"
    by (rule getUint32_setUint32)
  show ?thesis
    using assms(2) by (simp add: readHeader_def r1 g r2 split: parsed.splits)
qed

lemma handleIncomingTransfer_receives:
  fixes tid a
  assumes wire: "incoming st = setUint32 (length meta) @ meta @ payload @ rest"
    and short: "length meta \<le> 10000"
    and parse: "JSON_parse P meta = Parsed m"
    and size: "meta_size m = Some (int (length payload))"
    and store: "opfs_available env \<longrightarrow> (\<forall>k. opfs_write_ok env k) \<and> opfs_finalize_ok env"
  defines "r \<equiv> handleIncomingTransfer P env tid st a"
  shows "receivedFiles (rapp r) =
           receivedFiles a @ [\<lparr>rf_filename = meta_filename m, rf_blob = payload\<rparr>]"
    and "incoming (strm r) = rest"
    and "read_requests (strm r) =
           read_requests st @ [4, length meta] @ map length (chunked CHUNK_SIZE payload)"
    and "close_calls (strm r) = Suc (close_calls st)"
    and "opfs_acquisitions r = 1"
    and "opfs_available env \<Longrightarrow> chunks r = [] \<and> file_bytes r = payload"
    and "\<not> opfs_available env \<Longrightarrow>
           concat (chunks r) = payload \<and> file_bytes r = [] \<and> opfs_writes r = 0"
    and "map_of (transfers (rapp r)) tid =
           Some (if stream_close_ok env
                 then (receiving tid m)\<lparr>tp_transferred := int (length payload), tp_status := completed\<rparr>
                 else failed tid StreamError)"
    and "\<exists>u \<in> set (updates_since a (rapp r)).
           u = (tid, (receiving tid m)\<lparr>tp_transferred := int (length payload), tp_status := completed\<rparr>)"
proof -
  let ?w = "opfs_available env"
  let ?n = "int (length payload)"
  define st1 where "st1 = st\<lparr>incoming := payload @ rest, read_requests := read_requests st @ [4, length meta]\<rparr>"
  have hd: "readHeader P st = (Inr m, st1)"
    using readHeader_wellformed[OF wire short, of P] parse by (simp add: st1_def)
  define s2 where "s2 = (start st a)\<lparr>strm := st1, rapp := set_entry tid (receiving tid m) a,
                             opfs_acquisitions := Suc 0, remaining := ?n\<rparr>"
  have "incoming (strm s2) = payload @ rest" "remaining s2 = ?n" by (simp_all add: s2_def st1_def)
  moreover from store have "?w \<longrightarrow> (\<forall>k. opfs_write_ok env k)" by simp
  ultimately obtain s3 where
    lp: "receiveLoop env tid ?n ?w s2 = (None, s3)" and
    in3: "incoming (strm s3) = rest" and rem3: "remaining s3 = 0" and
    rq3: "read_requests (strm s3) = read_requests (strm s2) @ map length (chunked CHUNK_SIZE payload)" and
    by3: "if ?w then file_bytes s3 = file_bytes s2 @ payload
          else concat (chunks s3) = concat (chunks s2) @ payload"
    using receiveLoop_complete[of s2 payload rest ?w env tid ?n] by blast
  have m2: "map_of (transfers (rapp s2)) tid =
              Some ((receiving tid m)\<lparr>tp_transferred := ?n - remaining s2\<rparr>)"
    by (simp add: s2_def map_of_set_entry receiving_zero)
  have "remaining s2 \<le> ?n" by (simp add: s2_def)
  from receiveLoop_updates[OF m2 this lp] obtain vs where
    h3: "history (rapp s3) = history (rapp s2) @ map (\<lambda>v. (tid, (receiving tid m)\<lparr>tp_transferred := v\<rparr>)) vs"
    and m3: "map_of (transfers (rapp s3)) tid =
               Some ((receiving tid m)\<lparr>tp_transferred := last ((?n - remaining s2) # vs)\<rparr>)"
    and la: "last ((?n - remaining s2) # vs) = ?n - remaining s3"
    and rf3: "receivedFiles (rapp s3) = receivedFiles (rapp s2)"
    by metis
  from m3 la rem3 have m3': "map_of (transfers (rapp s3)) tid =
               Some ((receiving tid m)\<lparr>tp_transferred := ?n\<rparr>)"
    by simp
  note fr = receiveLoop_frame[OF lp]
  let ?done = "(receiving tid m)\<lparr>tp_transferred := ?n, tp_status := completed\<rparr>"
  define s4 where "s4 = s3\<lparr>rapp := (set_entry tid ?done (rapp s3))
                            \<lparr>receivedFiles := receivedFiles (rapp s3) @
                               [\<lparr>rf_filename = meta_filename m,
                                 rf_blob = (if ?w then file_bytes s3 else concat (chunks s3))\<rparr>]\<rparr>,
                 strm := (strm s3)\<lparr>close_calls := Suc (close_calls (strm s3))\<rparr>\<rparr>"
  have fz: "finalize env tid m ?w s3 =
              (if stream_close_ok env then None else Some StreamError, s4)"
    using store m3' by (simp add: finalize_def assign_Some Let_def s4_def set_entry_simps(3))
  have tr: "receiveTry P env tid (start st a) =
               (if stream_close_ok env then None else Some StreamError, s4)"
    using hd size lp fz
    by (simp add: receiveTry_def receiveBody_def Let_def s2_def start_def)
  have r: "r = (if stream_close_ok env then s4
                else s4\<lparr>rapp := set_entry tid (failed tid StreamError) (rapp s4)\<rparr>)"
    by (simp add: r_def handleIncomingTransfer_def tr)
  have blob: "(if ?w then file_bytes s3 else concat (chunks s3)) = payload"
    using by3 by (simp add: s2_def start_def split: if_splits)
  show "receivedFiles (rapp r) =
           receivedFiles a @ [\<lparr>rf_filename = meta_filename m, rf_blob = payload\<rparr>]"
    using rf3 blob by (simp add: r s4_def s2_def set_entry_simps)
  show "incoming (strm r) = rest" using in3 by (simp add: r s4_def)
  show "read_requests (strm r) =
           read_requests st @ [4, length meta] @ map length (chunked CHUNK_SIZE payload)"
    using rq3 by (simp add: r s4_def s2_def st1_def)
  show "close_calls (strm r) = Suc (close_calls st)"
    using fr by (simp add: r s4_def s2_def st1_def)
  show "opfs_acquisitions r = 1" using fr by (simp add: r s4_def s2_def)
  show "chunks r = [] \<and> file_bytes r = payload" if "?w"
    using that fr blob by (simp add: r s4_def s2_def start_def)
  show "concat (chunks r) = payload \<and> file_bytes r = [] \<and> opfs_writes r = 0" if "\<not> ?w"
    using that fr blob by (simp add: r s4_def s2_def start_def)
  show "map_of (transfers (rapp r)) tid =
           Some (if stream_close_ok env then ?done else failed tid StreamError)"
    by (simp add: r s4_def set_entry_simps update_conv')
  have "(tid, ?done) \<in> set (history (rapp s4))"
    by (simp add: s4_def set_entry_simps)
  moreover have "(tid, ?done) \<notin> set (history a) \<Longrightarrow> True" by simp
  have h4: "history (rapp s4) = history a @ (tid, receiving tid m) #
              map (\<lambda>v. (tid, (receiving tid m)\<lparr>tp_transferred := v\<rparr>)) vs @ [(tid, ?done)]"
    using h3 by (simp add: s4_def s2_def set_entry_simps)
  have "(tid, ?done) \<in> set (updates_since a (rapp r))"
    using h4 by (simp add: updates_since_def r set_entry_simps)
  then show "\<exists>u \<in> set (updates_since a (rapp r)). u = (tid, ?done)" by blast
qed

subsection \<open>An oversized header\<close>

lemma readHeader_oversized:
  assumes "incoming st = b0 # b1 # b2 # b3 # rest" and "getUint32 [b0, b1, b2, b3] > 10000"
  shows "readHeader P st =
           (Inl (InvalidMetadataLength (getUint32 [b0, b1, b2, b3])),
            st\<lparr>incoming := rest, read_requests := read_requests st @ [4]\<rparr>)"
proof -
  have "read 4 st = (Inr [b0, b1, b2, b3], st\<lparr>incoming := rest, read_requests := read_requests st @ [4]\<rparr>)"
    by (simp add: read_def assms(1))
  with assms(2) show ?thesis by (simp add: readHeader_def)
qed

lemma handleIncomingTransfer_header_fails:
  assumes "readHeader P st = (Inl e, st1)"
  shows "handleIncomingTransfer P env tid st a =
           (start st a)\<lparr>strm := st1, rapp := set_entry tid (failed tid e) a\<rparr>"
  using assms by (simp add: handleIncomingTransfer_def receiveTry_def start_def)

lemma strm_start: "strm (start st a) = st"
  by (simp add: start_def)

lemma handleIncomingTransfer_header_ok:
  assumes "readHeader P st = (Inr m, st1)"
  shows "handleIncomingTransfer P env tid st a =
           (case receiveBody env tid m ((start st a)\<lparr>strm := st1\<rparr>) of
              (None, s) \<Rightarrow> s
            | (Some err, s) \<Rightarrow> s\<lparr>rapp := set_entry tid (failed tid err) (rapp s)\<rparr>)"
  using assms by (simp add: handleIncomingTransfer_def receiveTry_def strm_start)

text \<open>
  Claim C3. When the four bytes of the length prefix decode to a length above 10000, the
  receiver records the session as failed with the invalid-length error, and the only read
  it has made on the stream is the one of the four prefix bytes: the bytes after them are
  still on the stream, nothing was stored and storage was not acquired.
\<close>

theorem oversized_header_rejected:
  assumes "incoming st = b0 # b1 # b2 # b3 # rest" and "getUint32 [b0, b1, b2, b3] > 10000"
  shows "let r = handleIncomingTransfer P env tid st a
         in map_of (transfers (rapp r)) tid =
              Some (failed tid (InvalidMetadataLength (getUint32 [b0, b1, b2, b3]))) \<and>
            updates_since a (rapp r) =
              [(tid, failed tid (InvalidMetadataLength (getUint32 [b0, b1, b2, b3])))] \<and>
            read_requests (strm r) = read_requests st @ [4] \<and> incoming (strm r) = rest \<and>
            chunks r = [] \<and> file_bytes r = [] \<and> opfs_acquisitions r = 0 \<and> opfs_writes r = 0 \<and>
            receivedFiles (rapp r) = receivedFiles a \<and> close_calls (strm r) = close_calls st"
  using handleIncomingTransfer_header_fails[OF readHeader_oversized[OF assms], where env = env and tid = tid and a = a and P = P]
  by (simp add: Let_def start_def set_entry_simps update_conv' updates_since_def)

theorem oversized_header_rejected_witness:
  "getUint32 [0, 0, 39, 17] = 10001 \<and>
   (let r = handleIncomingTransfer \<lparr>JSON_stringify = stringify_ascii, JSON_parse = parse_table []\<rparr>
              (reliable True) ''r1'' (fresh_stream [0, 0, 39, 17, 123, 125, 7, 7, 7]) empty_app
    in map_of (transfers (rapp r)) ''r1'' = Some (failed ''r1'' (InvalidMetadataLength 10001)) \<and>
       read_requests (strm r) = [4] \<and> incoming (strm r) = [123, 125, 7, 7, 7] \<and>
       opfs_acquisitions r = 0 \<and> chunks r = [] \<and> file_bytes r = [])"
proof -
  have g: "getUint32 [0, 0, 39, 17] = 10001" by (simp add: getUint32_def)
  have i: "incoming (fresh_stream [0, 0, 39, 17, 123, 125, 7, 7, 7]) = 0 # 0 # 39 # 17 # [123, 125, 7, 7, 7]"
    by (simp add: fresh_stream_def)
  have "getUint32 [0, 0, 39, 17] > 10000" by (simp add: g)
  from oversized_header_rejected[OF i this,
      where P = "\<lparr>JSON_stringify = stringify_ascii, JSON_parse = parse_table []\<rparr>"
        and env = "reliable True" and tid = "''r1''" and a = empty_app]
  show ?thesis by (simp add: g Let_def fresh_stream_def)
qed

subsection \<open>The statuses of one inbound transfer\<close>

lemma empty_app_simps:
  "transfers empty_app = []" "receivedFiles empty_app = []" "history empty_app = []"
  by (simp_all add: empty_app_def)

lemma updates_sinceI: "history a' = history a @ us \<Longrightarrow> updates_since a a' = us"
  by (simp add: updates_since_def)

lemma handleIncomingTransfer_statuses:
  fixes P env tid st a
  defines "r \<equiv> handleIncomingTransfer P env tid st a"
  defines "ss \<equiv> map (tp_status \<circ> snd) (updates_since a (rapp r))"
  shows "(ss = [error] \<and> (\<exists>e st1. readHeader P st = (Inl e, st1)) \<and>
            close_calls (strm r) = close_calls st) \<or>
         (\<exists>k. (\<exists>m st1. readHeader P st = (Inr m, st1)) \<and>
            ((ss = replicate (Suc k) transferring @ [error] \<and>
                close_calls (strm r) = close_calls st) \<or>
             (ss = replicate (Suc k) transferring @ [completed] \<and> stream_close_ok env \<and>
                close_calls (strm r) = Suc (close_calls st)) \<or>
             (ss = replicate (Suc k) transferring @ [completed, error] \<and> \<not> stream_close_ok env \<and>
                close_calls (strm r) = Suc (close_calls st))))"
proof -
  from handleIncomingTransfer_writes[where P = P and st = st and tid = tid and env = env and a = a]
  consider (header) e st1 where "readHeader P st = (Inl e, st1)"
      "history (rapp r) = history a @ [(tid, failed tid e)]" "close_calls (strm r) = close_calls st"
    | (body) m st1 vs fin where "readHeader P st = (Inr m, st1)"
      "history (rapp r) =
         history a @ (tid, receiving tid m) #
           map (\<lambda>v. (tid, (receiving tid m)\<lparr>tp_transferred := v\<rparr>)) vs @ map (Pair tid) fin"
      "(\<exists>e. fin = [failed tid e] \<and> close_calls (strm r) = close_calls st) \<or>
       (fin = [(receiving tid m)\<lparr>tp_transferred := last (0 # vs), tp_status := completed\<rparr>] \<and>
          stream_close_ok env \<and> close_calls (strm r) = Suc (close_calls st)) \<or>
       (fin = [(receiving tid m)\<lparr>tp_transferred := last (0 # vs), tp_status := completed\<rparr>,
               failed tid StreamError] \<and>
          \<not> stream_close_ok env \<and> close_calls (strm r) = Suc (close_calls st))"
    unfolding r_def by blast
  then show ?thesis
  proof cases
    case header
    from updates_sinceI[OF header(2)] have "ss = [error]" by (simp add: ss_def failed_def)
    with header show ?thesis by blast
  next
    case body
    let ?run = "map (\<lambda>v. (tid, (receiving tid m)\<lparr>tp_transferred := v\<rparr>)) vs"
    have run: "map (tp_status \<circ> snd) ?run = replicate (length vs) transferring"
      by (simp add: receiving_def map_replicate_const comp_def)
    have ss: "ss = replicate (Suc (length vs)) transferring @ map tp_status fin"
      unfolding ss_def updates_sinceI[OF body(2)]
      using run by (simp add: receiving_def comp_def)
    have st: "tp_status (failed tid e) = error"
      "tp_status ((receiving tid m)\<lparr>tp_transferred := v, tp_status := completed\<rparr>) = completed" for e v
      by (simp_all add: failed_def)
    from body(3) have
      "(ss = replicate (Suc (length vs)) transferring @ [error] \<and>
                close_calls (strm r) = close_calls st) \<or>
       (ss = replicate (Suc (length vs)) transferring @ [completed] \<and> stream_close_ok env \<and>
                close_calls (strm r) = Suc (close_calls st)) \<or>
       (ss = replicate (Suc (length vs)) transferring @ [completed, error] \<and> \<not> stream_close_ok env \<and>
                close_calls (strm r) = Suc (close_calls st))"
      unfolding ss using st by (elim disjE exE conjE) simp_all
    with body(1) show ?thesis by blast
  qed
qed

subsection \<open>Closing the stream\<close>

text \<open>
  Claim C5, as the code has it. The handler calls \<^verbatim>\<open>stream.close()\<close> exactly once when
  the session gets as far as being marked completed, and not at all when the pipeline
  fails before that; in no case does it call it twice.
\<close>

theorem stream_closed_once_iff_completed:
  "let r = handleIncomingTransfer P env tid st a
   in close_calls (strm r) =
        close_calls st +
          (if completed \<in> set (map (tp_status \<circ> snd) (updates_since a (rapp r))) then 1 else 0)"
proof -
  define r where "r = handleIncomingTransfer P env tid st a"
  define ss where "ss = map (tp_status \<circ> snd) (updates_since a (rapp r))"
  from handleIncomingTransfer_statuses[where P = P and env = env and tid = tid and st = st and a = a]
  consider "ss = [error]" "close_calls (strm r) = close_calls st"
    | k where "ss = replicate (Suc k) transferring @ [error]" "close_calls (strm r) = close_calls st"
    | k where "ss = replicate (Suc k) transferring @ [completed]"
        "close_calls (strm r) = Suc (close_calls st)"
    | k where "ss = replicate (Suc k) transferring @ [completed, error]"
        "close_calls (strm r) = Suc (close_calls st)"
    unfolding r_def ss_def by blast
  then have "close_calls (strm r) = close_calls st + (if completed \<in> set ss then 1 else 0)"
    by cases simp_all
  then show ?thesis by (simp add: Let_def r_def ss_def)
qed

theorem stream_closed_once_iff_completed_witness:
  "close_calls (strm (handleIncomingTransfer sample_platform (reliable False) ''r1''
       (fresh_stream [0, 0, 39, 17]) empty_app)) = 0 \<and>
   completed \<notin> set (map (tp_status \<circ> snd) (updates_since empty_app
      (rapp (handleIncomingTransfer sample_platform (reliable False) ''r1''
         (fresh_stream [0, 0, 39, 17]) empty_app))))"
proof -
  have g: "getUint32 [0, 0, 39, 17] > 10000" by (simp add: getUint32_def)
  have i: "incoming (fresh_stream [0, 0, 39, 17]) = 0 # 0 # 39 # 17 # []"
    by (simp add: fresh_stream_def)
  note r = handleIncomingTransfer_header_fails[OF readHeader_oversized[OF i g],
      where P = sample_platform and env = "reliable False" and tid = "''r1''" and a = empty_app]
  have "completed \<notin> set (map (tp_status \<circ> snd) (updates_since empty_app
      (rapp (handleIncomingTransfer sample_platform (reliable False) ''r1''
         (fresh_stream [0, 0, 39, 17]) empty_app))))"
    by (simp add: r updates_since_def set_entry_simps empty_app_simps failed_def)
  with stream_closed_once_iff_completed[of sample_platform "reliable False" "''r1''"
      "fresh_stream [0, 0, 39, 17]" empty_app]
  show ?thesis by (simp add: Let_def fresh_stream_def)
qed

text \<open>
  A stream that ends before the length prefix is complete: the session fails and the
  handler never closes the stream, so "closed exactly once in all cases" does not hold.
\<close>

theorem stream_not_closed_on_failure:
  "close_calls (strm (handleIncomingTransfer sample_platform (reliable True) ''r1''
       (fresh_stream [0, 0]) empty_app)) = 0 \<and>
   map_of (transfers (rapp (handleIncomingTransfer sample_platform (reliable True) ''r1''
       (fresh_stream [0, 0]) empty_app))) ''r1'' = Some (failed ''r1'' UnexpectedEOF)"
proof -
  have "readHeader sample_platform (fresh_stream [0, 0]) =
          (Inl UnexpectedEOF, \<lparr>incoming = [], read_requests = [4], close_calls = 0\<rparr>)"
    by (simp add: readHeader_def read_def fresh_stream_def)
  from handleIncomingTransfer_header_fails[OF this]
  show ?thesis by (simp add: set_entry_simps update_conv' start_def fresh_stream_def)
qed

subsection \<open>The storage strategy\<close>

lemma finalize_frame:
  "finalize env tid m w s = (x, s') \<Longrightarrow>
   chunks s' = chunks s \<and> file_bytes s' = file_bytes s \<and> opfs_writes s' = opfs_writes s"
  by (auto simp: finalize_def Let_def split: if_splits sum.splits)

lemma receiveBody_strategy:
  assumes "receiveBody env tid m s = (x, s')"
  shows "(opfs_available env \<longrightarrow> chunks s' = chunks s) \<and>
         (\<not> opfs_available env \<longrightarrow> file_bytes s' = file_bytes s \<and> opfs_writes s' = opfs_writes s)"
proof -
  let ?w = "opfs_available env"
  let ?s2 = "s\<lparr>rapp := set_entry tid (receiving tid m) (rapp s),
               opfs_acquisitions := Suc (opfs_acquisitions s)\<rparr>"
  obtain y s3 where lp: "(case meta_size m of
              None \<Rightarrow> (None, ?s2)
            | Some n \<Rightarrow> receiveLoop env tid n ?w (?s2\<lparr>remaining := n\<rparr>)) = (y, s3)"
    by (cases "case meta_size m of
              None \<Rightarrow> (None, ?s2)
            | Some n \<Rightarrow> receiveLoop env tid n ?w (?s2\<lparr>remaining := n\<rparr>)")
  have body: "(x, s') = (case y of Some e \<Rightarrow> (Some e, s3) | None \<Rightarrow> finalize env tid m ?w s3)"
    using assms lp by (auto simp: receiveBody_def Let_def split: option.splits)
  have l: "(?w \<longrightarrow> chunks s3 = chunks s) \<and>
           (\<not> ?w \<longrightarrow> file_bytes s3 = file_bytes s \<and> opfs_writes s3 = opfs_writes s)"
  proof (cases "meta_size m")
    case None
    with lp show ?thesis by auto
  next
    case (Some n)
    with lp have "receiveLoop env tid n ?w (?s2\<lparr>remaining := n\<rparr>) = (y, s3)" by simp
    from receiveLoop_frame[OF this] show ?thesis by simp
  qed
  show ?thesis
  proof (cases y)
    case (Some e)
    with body l show ?thesis by simp
  next
    case None
    with body have "finalize env tid m ?w s3 = (x, s')" by simp
    from finalize_frame[OF this] l show ?thesis by simp
  qed
qed

text \<open>In every run the chunks go to one store only, and storage is acquired once the
  header has been read, not before and not again.\<close>

lemma handleIncomingTransfer_strategy:
  fixes P env tid st a
  defines "r \<equiv> handleIncomingTransfer P env tid st a"
  shows "(opfs_available env \<longrightarrow> chunks r = []) \<and>
         (\<not> opfs_available env \<longrightarrow> file_bytes r = [] \<and> opfs_writes r = 0) \<and>
         opfs_acquisitions r = (if \<exists>m st1. readHeader P st = (Inr m, st1) then 1 else 0)"
proof -
  obtain h st1 where hd: "readHeader P st = (h, st1)" by (cases "readHeader P st")
  have aq: "opfs_acquisitions r = (if \<exists>m st1. readHeader P st = (Inr m, st1) then 1 else 0)"
    using handleIncomingTransfer_writes[where P = P and st = st and tid = tid and env = env and a = a]
    unfolding r_def by auto
  show ?thesis
  proof (cases h)
    case (Inl e)
    with hd have "readHeader P st = (Inl e, st1)" by simp
    from handleIncomingTransfer_header_fails[OF this, of env tid a] aq show ?thesis
      by (simp add: r_def start_def)
  next
    case (Inr m)
    with hd have h: "readHeader P st = (Inr m, st1)" by simp
    obtain x s' where b: "receiveBody env tid m ((start st a)\<lparr>strm := st1\<rparr>) = (x, s')"
      by (cases "receiveBody env tid m ((start st a)\<lparr>strm := st1\<rparr>)")
    from receiveBody_strategy[OF b]
    have "(opfs_available env \<longrightarrow> chunks s' = []) \<and>
          (\<not> opfs_available env \<longrightarrow> file_bytes s' = [] \<and> opfs_writes s' = 0)"
      by (simp add: start_def)
    moreover have "r = (case x of None \<Rightarrow> s'
                      | Some err \<Rightarrow> s'\<lparr>rapp := set_entry tid (failed tid err) (rapp s')\<rparr>)"
      unfolding r_def handleIncomingTransfer_header_ok[OF h] b by simp
    ultimately show ?thesis using aq by (cases x) simp_all
  qed
qed

lemma sample_meta_length: "length (stringify_ascii ''a.txt'' 3) = 29"
  by (simp add: stringify_ascii_def ascii_def toString_small)

lemma sample_parse:
  "JSON_parse sample_platform (stringify_ascii ''a.txt'' 3) =
     Parsed \<lparr>meta_filename = Some ''a.txt'', meta_size = Some 3\<rparr>"
  by (simp add: sample_platform_def parse_table_def)

text \<open>
  Claim C7. The receiver enters the OPFS acquisition once per session, when the header
  has been read (a session that fails in the header never reaches it), and once the
  acquisition has failed no run writes a chunk to OPFS. When the acquisition fails and
  the stream carries the header and the announced payload, every chunk goes to the memory
  buffer, the session is marked completed, and the blob added to the received files is
  exactly the payload, under the announced file name. The session stays completed when
  \<^verbatim>\<open>stream.close()\<close> succeeds.
\<close>

theorem memory_fallback_completes:
  assumes "incoming st = setUint32 (length meta) @ meta @ payload @ rest"
    and "length meta \<le> 10000"
    and "JSON_parse P meta = Parsed m"
    and "meta_size m = Some (int (length payload))"
    and "\<not> opfs_available env"
  shows "let r = handleIncomingTransfer P env tid st a
         in opfs_acquisitions r = 1 \<and> opfs_writes r = 0 \<and> file_bytes r = [] \<and>
            concat (chunks r) = payload \<and>
            receivedFiles (rapp r) =
              receivedFiles a @ [\<lparr>rf_filename = meta_filename m, rf_blob = payload\<rparr>] \<and>
            (tid, (receiving tid m)\<lparr>tp_transferred := int (length payload), tp_status := completed\<rparr>)
              \<in> set (updates_since a (rapp r)) \<and>
            (stream_close_ok env \<longrightarrow>
               map_of (transfers (rapp r)) tid =
                 Some ((receiving tid m)\<lparr>tp_transferred := int (length payload),
                                         tp_status := completed\<rparr>)) \<and>
            (\<forall>st' a'. opfs_acquisitions (handleIncomingTransfer P env tid st' a') =
                       (if \<exists>m st1. readHeader P st' = (Inr m, st1) then 1 else 0) \<and>
                     file_bytes (handleIncomingTransfer P env tid st' a') = [] \<and>
                     opfs_writes (handleIncomingTransfer P env tid st' a') = 0)"
proof -
  from assms(5) have store: "opfs_available env \<longrightarrow> (\<forall>k. opfs_write_ok env k) \<and> opfs_finalize_ok env"
    by simp
  note rc = handleIncomingTransfer_receives[OF assms(1-4) store, where tid = tid and a = a]
  from rc(9) have "(tid, (receiving tid m)\<lparr>tp_transferred := int (length payload), tp_status := completed\<rparr>)
              \<in> set (updates_since a (rapp (handleIncomingTransfer P env tid st a)))"
    by blast
  moreover have "opfs_acquisitions (handleIncomingTransfer P env tid st' a') =
                       (if \<exists>m st1. readHeader P st' = (Inr m, st1) then 1 else 0) \<and>
                     file_bytes (handleIncomingTransfer P env tid st' a') = [] \<and>
                     opfs_writes (handleIncomingTransfer P env tid st' a') = 0" for st' a'
    using handleIncomingTransfer_strategy[where P = P and env = env and tid = tid and st = st' and a = a']
      assms(5) by simp
  ultimately show ?thesis
    using rc(1,5,8) rc(7)[OF assms(5)] by (simp add: Let_def)
qed

theorem memory_fallback_completes_witness:
  "\<not> opfs_available (reliable False) \<and>
   length (stringify_ascii ''a.txt'' 3) \<le> 10000 \<and>
   (let r = handleIncomingTransfer sample_platform (reliable False) ''r1''
              (fresh_stream (setUint32 29 @ stringify_ascii ''a.txt'' 3 @ [1, 2, 3])) empty_app
    in opfs_acquisitions r = 1 \<and> opfs_writes r = 0 \<and> file_bytes r = [] \<and>
       concat (chunks r) = [1, 2, 3] \<and>
       receivedFiles (rapp r) = [\<lparr>rf_filename = Some ''a.txt'', rf_blob = [1, 2, 3]\<rparr>] \<and>
       map_of (transfers (rapp r)) ''r1'' =
         Some \<lparr>tp_id = ''r1'', tp_filename = Some ''a.txt'', tp_size = Some 3, tp_transferred = 3,
               tp_status = completed, tp_direction = receive, tp_error = None\<rparr>)"
proof -
  have w: "incoming (fresh_stream (setUint32 29 @ stringify_ascii ''a.txt'' 3 @ [1, 2, 3])) =
             setUint32 (length (stringify_ascii ''a.txt'' 3)) @ stringify_ascii ''a.txt'' 3 @ [1, 2, 3] @ []"
    by (simp add: fresh_stream_def sample_meta_length)
  have l: "length (stringify_ascii ''a.txt'' 3) \<le> 10000" by (simp add: sample_meta_length)
  have s: "meta_size \<lparr>meta_filename = Some ''a.txt'', meta_size = Some 3\<rparr> = Some (int (length [1, 2, 3 :: byte]))"
    by simp
  have n: "\<not> opfs_available (reliable False)" by (simp add: reliable_def)
  have c: "stream_close_ok (reliable False)" by (simp add: reliable_def)
  note t = memory_fallback_completes[OF w l sample_parse s n, where tid = "''r1''" and a = empty_app,
      unfolded Let_def]
  note t1 = t[THEN conjunct1] and t2 = t[THEN conjunct2, THEN conjunct1]
    and t3 = t[THEN conjunct2, THEN conjunct2, THEN conjunct1]
    and t4 = t[THEN conjunct2, THEN conjunct2, THEN conjunct2, THEN conjunct1]
    and t5 = t[THEN conjunct2, THEN conjunct2, THEN conjunct2, THEN conjunct2, THEN conjunct1]
    and t7 = t[THEN conjunct2, THEN conjunct2, THEN conjunct2, THEN conjunct2, THEN conjunct2,
               THEN conjunct2, THEN conjunct1]
  from t1 t2 t3 t4 t5 t7 n l c
  show ?thesis by (simp add: Let_def empty_app_simps receiving_def)
qed

subsection \<open>Metadata that is not checked\<close>

lemma handleIncomingTransfer_no_payload:
  assumes hd: "readHeader P st = (Inr m, st1)"
    and size: "meta_size m = None \<or> (\<exists>n. meta_size m = Some n \<and> n \<le> 0)"
    and store: "opfs_available env \<longrightarrow> opfs_finalize_ok env"
  shows "handleIncomingTransfer P env tid st a =
           (let s = (start st a)\<lparr>strm := st1\<lparr>close_calls := Suc (close_calls st1)\<rparr>,
                       rapp := (set_entry tid ((receiving tid m)\<lparr>tp_status := completed\<rparr>)
                                 (set_entry tid (receiving tid m) a))
                               \<lparr>receivedFiles := receivedFiles a @
                                    [\<lparr>rf_filename = meta_filename m, rf_blob = []\<rparr>]\<rparr>,
                       opfs_acquisitions := Suc 0,
                       remaining := (case meta_size m of None \<Rightarrow> 0 | Some n \<Rightarrow> n)\<rparr>
            in if stream_close_ok env then s
               else s\<lparr>rapp := set_entry tid (failed tid StreamError) (rapp s)\<rparr>)"
proof -
  let ?s2 = "(start st a)\<lparr>strm := st1, rapp := set_entry tid (receiving tid m) a,
                           opfs_acquisitions := Suc 0\<rparr>"
  let ?s3 = "?s2\<lparr>remaining := (case meta_size m of None \<Rightarrow> 0 | Some n \<Rightarrow> n)\<rparr>"
  have lp: "(case meta_size m of
              None \<Rightarrow> (None, ?s2)
            | Some n \<Rightarrow> receiveLoop env tid n (opfs_available env) (?s2\<lparr>remaining := n\<rparr>)) = (None, ?s3)"
    using size by (auto simp: receiveLoop_stop start_def)
  have m3: "map_of (transfers (rapp ?s3)) tid = Some (receiving tid m)"
    by (simp add: map_of_set_entry)
  have fz: "finalize env tid m (opfs_available env) ?s3 =
              (if stream_close_ok env then None else Some StreamError,
               ?s3\<lparr>rapp := (set_entry tid ((receiving tid m)\<lparr>tp_status := completed\<rparr>) (rapp ?s3))
                            \<lparr>receivedFiles := receivedFiles (rapp ?s3) @
                               [\<lparr>rf_filename = meta_filename m, rf_blob = []\<rparr>]\<rparr>,
                 strm := (strm ?s3)\<lparr>close_calls := Suc (close_calls (strm ?s3))\<rparr>\<rparr>)"
    using store m3
    by (simp add: finalize_def assign_Some Let_def set_entry_simps(3) start_def)
  have "receiveBody env tid m ((start st a)\<lparr>strm := st1\<rparr>) =
          (case (case meta_size m of
              None \<Rightarrow> (None, ?s2)
            | Some n \<Rightarrow> receiveLoop env tid n (opfs_available env) (?s2\<lparr>remaining := n\<rparr>)) of
             (Some e, s3) \<Rightarrow> (Some e, s3)
           | (None, s3) \<Rightarrow> finalize env tid m (opfs_available env) s3)"
    by (simp add: receiveBody_def Let_def start_def split: option.splits)
  then have "receiveTry P env tid (start st a) = finalize env tid m (opfs_available env) ?s3"
    unfolding lp using hd by (simp add: receiveTry_def strm_start)
  then show ?thesis
    unfolding handleIncomingTransfer_def fz
    by (simp add: Let_def start_def set_entry_simps)
qed

text \<open>
  Claim C6, as the code has it. With a header of at most 10000 bytes on the stream, the
  receiver fails the session before the payload loop exactly when the metadata text does
  not parse or parses to \<^verbatim>\<open>null\<close>. It does not check the parsed value: metadata without
  \<^verbatim>\<open>size\<close>, or with a negative one, is accepted, no payload byte is read, and with
  working collaborators the session completes with an empty blob under whatever file name
  the metadata has.
\<close>

theorem metadata_fields_not_validated:
  assumes "incoming st = setUint32 (length meta) @ meta @ rest" and "length meta \<le> 10000"
  shows "let r = handleIncomingTransfer P env tid st a
         in (JSON_parse P meta = ParseThrows \<longrightarrow>
               map_of (transfers (rapp r)) tid = Some (failed tid SyntaxError) \<and>
               receivedFiles (rapp r) = receivedFiles a \<and> incoming (strm r) = rest \<and>
               opfs_acquisitions r = 0) \<and>
            (JSON_parse P meta = ParsedNull \<longrightarrow>
               map_of (transfers (rapp r)) tid = Some (failed tid TypeError) \<and>
               receivedFiles (rapp r) = receivedFiles a \<and> incoming (strm r) = rest \<and>
               opfs_acquisitions r = 0) \<and>
            (\<forall>m. JSON_parse P meta = Parsed m \<and>
                 (meta_size m = None \<or> (\<exists>n. meta_size m = Some n \<and> n < 0)) \<and>
                 (opfs_available env \<longrightarrow> opfs_finalize_ok env) \<and> stream_close_ok env \<longrightarrow>
               map_of (transfers (rapp r)) tid =
                 Some ((receiving tid m)\<lparr>tp_status := completed\<rparr>) \<and>
               receivedFiles (rapp r) =
                 receivedFiles a @ [\<lparr>rf_filename = meta_filename m, rf_blob = []\<rparr>] \<and>
               incoming (strm r) = rest \<and>
               read_requests (strm r) = read_requests st @ [4, length meta])"
proof -
  note hd = readHeader_wellformed[OF assms, of P]
  define r where "r = handleIncomingTransfer P env tid st a"
  let ?st1 = "st\<lparr>incoming := rest, read_requests := read_requests st @ [4, length meta]\<rparr>"
  have fails: "map_of (transfers (rapp r)) tid = Some (failed tid e) \<and>
               receivedFiles (rapp r) = receivedFiles a \<and> incoming (strm r) = rest \<and>
               opfs_acquisitions r = 0"
    if "readHeader P st = (Inl e, ?st1)" for e
    using handleIncomingTransfer_header_fails[OF that, of env tid a]
    by (simp add: r_def set_entry_simps update_conv' start_def)
  have a: "JSON_parse P meta = ParseThrows \<longrightarrow>
               map_of (transfers (rapp r)) tid = Some (failed tid SyntaxError) \<and>
               receivedFiles (rapp r) = receivedFiles a \<and> incoming (strm r) = rest \<and>
               opfs_acquisitions r = 0"
    using hd fails[of SyntaxError] by simp
  have b: "JSON_parse P meta = ParsedNull \<longrightarrow>
               map_of (transfers (rapp r)) tid = Some (failed tid TypeError) \<and>
               receivedFiles (rapp r) = receivedFiles a \<and> incoming (strm r) = rest \<and>
               opfs_acquisitions r = 0"
    using hd fails[of TypeError] by simp
  have c: "map_of (transfers (rapp r)) tid =
                 Some ((receiving tid m)\<lparr>tp_status := completed\<rparr>) \<and>
               receivedFiles (rapp r) =
                 receivedFiles a @ [\<lparr>rf_filename = meta_filename m, rf_blob = []\<rparr>] \<and>
               incoming (strm r) = rest \<and>
               read_requests (strm r) = read_requests st @ [4, length meta]"
    if p: "JSON_parse P meta = Parsed m"
      and sz: "meta_size m = None \<or> (\<exists>n. meta_size m = Some n \<and> n < 0)"
      and ok: "opfs_available env \<longrightarrow> opfs_finalize_ok env" "stream_close_ok env" for m
  proof -
    from p hd have h: "readHeader P st = (Inr m, ?st1)" by simp
    from sz have "meta_size m = None \<or> (\<exists>n. meta_size m = Some n \<and> n \<le> 0)" by auto
    from handleIncomingTransfer_no_payload[OF h this ok(1), of tid a] ok(2)
    show ?thesis by (simp add: r_def Let_def set_entry_simps update_conv')
  qed
  from a b c show ?thesis unfolding Let_def r_def[symmetric] by blast
qed

lemma empty_object_length: "length (ascii ''{}'') = 2"
  by (simp add: ascii_def)

lemma empty_object_parse:
  "JSON_parse sample_platform (ascii ''{}'') = Parsed \<lparr>meta_filename = None, meta_size = None\<rparr>"
  by (simp add: sample_platform_def parse_table_def stringify_ascii_def ascii_def)

theorem metadata_fields_not_validated_witness:
  "length (ascii ''{}'') \<le> 10000 \<and>
   JSON_parse sample_platform (ascii ''{}'') = Parsed \<lparr>meta_filename = None, meta_size = None\<rparr> \<and>
   (let r = handleIncomingTransfer sample_platform (reliable True) ''r1''
              (fresh_stream (setUint32 2 @ ascii ''{}'' @ [7, 7])) empty_app
    in map_of (transfers (rapp r)) ''r1'' =
         Some ((receiving ''r1'' \<lparr>meta_filename = None, meta_size = None\<rparr>)\<lparr>tp_status := completed\<rparr>) \<and>
       receivedFiles (rapp r) = [\<lparr>rf_filename = None, rf_blob = []\<rparr>] \<and>
       incoming (strm r) = [7, 7] \<and> read_requests (strm r) = [4, 2])"
proof -
  have w: "incoming (fresh_stream (setUint32 2 @ ascii ''{}'' @ [7, 7])) =
             setUint32 (length (ascii ''{}'')) @ ascii ''{}'' @ [7, 7]"
    by (simp add: fresh_stream_def empty_object_length)
  have l: "length (ascii ''{}'') \<le> 10000" by (simp add: empty_object_length)
  have e: "(opfs_available (reliable True) \<longrightarrow> opfs_finalize_ok (reliable True)) \<and>
           stream_close_ok (reliable True)"
    by (simp add: reliable_def)
  from metadata_fields_not_validated[OF w l, where P = sample_platform and env = "reliable True"
      and tid = "''r1''" and a = empty_app] empty_object_parse e l
  show ?thesis by (simp add: Let_def empty_app_simps empty_object_length fresh_stream_def)
qed

text \<open>
  A header whose JSON is the empty object has neither \<^verbatim>\<open>filename\<close> nor \<^verbatim>\<open>size\<close>; the
  receiver does not fail the session, it completes it.
\<close>

theorem missing_fields_accepted:
  "tp_status (the (map_of (transfers (rapp (handleIncomingTransfer sample_platform (reliable True) ''r1''
      (fresh_stream (setUint32 2 @ ascii ''{}'')) empty_app))) ''r1'')) = completed \<and>
   receivedFiles (rapp (handleIncomingTransfer sample_platform (reliable True) ''r1''
      (fresh_stream (setUint32 2 @ ascii ''{}'')) empty_app)) = [\<lparr>rf_filename = None, rf_blob = []\<rparr>]"
proof -
  have "incoming (fresh_stream (setUint32 2 @ ascii ''{}'')) =
          setUint32 (length (ascii ''{}'')) @ ascii ''{}'' @ []"
    by (simp add: fresh_stream_def empty_object_length)
  from readHeader_wellformed[OF this, of sample_platform]
  have "readHeader sample_platform (fresh_stream (setUint32 2 @ ascii ''{}'')) =
          (Inr \<lparr>meta_filename = None, meta_size = None\<rparr>,
           (fresh_stream (setUint32 2 @ ascii ''{}''))\<lparr>incoming := [],
              read_requests := read_requests (fresh_stream (setUint32 2 @ ascii ''{}'')) @ [4, 2]\<rparr>)"
    by (simp add: empty_object_parse empty_object_length)
  from handleIncomingTransfer_no_payload[OF this, of "reliable True" "''r1''" empty_app]
  show ?thesis
    by (simp add: Let_def reliable_def set_entry_simps update_conv' empty_app_simps receiving_def)
qed

subsection \<open>Sending and then receiving\<close>

lemma CHUNK_SIZE_value: "CHUNK_SIZE = 65536"
  by (simp add: CHUNK_SIZE_def)

text \<open>
  Claim C2, as the code has it. The sender, when nothing fails, writes the four-byte
  length, the metadata and then the payload in pieces of at most 65536 bytes. When the
  metadata is at most 10000 bytes long and the platform's JSON functions reproduce it, the
  receiver run on the bytes written adds one received file with the sender's file name
  and exactly the sender's bytes, reads the stream to its end and, when
  \<^verbatim>\<open>stream.close()\<close> succeeds, leaves the session completed with \<open>transferred = size\<close>.
  This holds for a payload of any length, whichever storage strategy is used.
\<close>

theorem send_then_receive_roundtrip:
  assumes codec: "JSON_parse P (JSON_stringify P (name f) (length (bytes f))) =
                    Parsed \<lparr>meta_filename = Some (name f), meta_size = Some (int (length (bytes f)))\<rparr>"
    and short: "length (JSON_stringify P (name f) (length (bytes f))) \<le> 10000"
    and sender: "node_ready senv" "import_ok senv" "dial_ok senv" "close_ok senv"
      "\<forall>k. write_ok senv k" "\<forall>k. slice_ok senv k"
      "\<exists>c \<in> set (connections senv). remotePeer c = peer"
    and store: "opfs_available renv \<longrightarrow> (\<forall>k. opfs_write_ok renv k) \<and> opfs_finalize_ok renv"
  shows "\<exists>ss. sendFile P senv sid f peer sa = (None, ss) \<and>
           written ss =
             [setUint32 (length (JSON_stringify P (name f) (length (bytes f)))),
              JSON_stringify P (name f) (length (bytes f))] @ chunked CHUNK_SIZE (bytes f) \<and>
           (\<forall>c \<in> set (chunked CHUNK_SIZE (bytes f)). length c \<le> 65536) \<and>
           concat (chunked CHUNK_SIZE (bytes f)) = bytes f \<and>
           (let r = handleIncomingTransfer P renv rid (fresh_stream (concat (written ss))) ra
            in receivedFiles (rapp r) =
                 receivedFiles ra @ [\<lparr>rf_filename = Some (name f), rf_blob = bytes f\<rparr>] \<and>
               incoming (strm r) = [] \<and>
               (stream_close_ok renv \<longrightarrow>
                  map_of (transfers (rapp r)) rid =
                    Some \<lparr>tp_id = rid, tp_filename = Some (name f),
                          tp_size = Some (int (length (bytes f))),
                          tp_transferred = int (length (bytes f)), tp_status = completed,
                          tp_direction = receive, tp_error = None\<rparr>))"
proof -
  let ?meta = "JSON_stringify P (name f) (length (bytes f))"
  let ?m = "\<lparr>meta_filename = Some (name f), meta_size = Some (int (length (bytes f)))\<rparr>"
  from sendFile_wire[OF sender, where P = P and tid = sid and f = f and a = sa] obtain ss where
    s: "sendFile P senv sid f peer sa = (None, ss)" and
    w: "written ss = [setUint32 (length ?meta), ?meta] @ chunked CHUNK_SIZE (bytes f)"
    by blast
  have pos: "0 < CHUNK_SIZE" by (simp add: CHUNK_SIZE_def)
  have cc: "concat (chunked CHUNK_SIZE (bytes f)) = bytes f"
    using pos by (rule concat_chunked)
  have bd: "\<forall>c \<in> set (chunked CHUNK_SIZE (bytes f)). length c \<le> 65536"
    using chunked_bounded[of _ CHUNK_SIZE "bytes f"] by (simp add: CHUNK_SIZE_value)
  have wire: "incoming (fresh_stream (concat (written ss))) =
                setUint32 (length ?meta) @ ?meta @ bytes f @ []"
    by (simp add: fresh_stream_def w cc)
  have size: "meta_size ?m = Some (int (length (bytes f)))" by simp
  note rc = handleIncomingTransfer_receives[OF wire short codec size store,
      where tid = rid and a = ra]
  have "let r = handleIncomingTransfer P renv rid (fresh_stream (concat (written ss))) ra
        in receivedFiles (rapp r) =
             receivedFiles ra @ [\<lparr>rf_filename = Some (name f), rf_blob = bytes f\<rparr>] \<and>
           incoming (strm r) = [] \<and>
           (stream_close_ok renv \<longrightarrow>
              map_of (transfers (rapp r)) rid =
                Some \<lparr>tp_id = rid, tp_filename = Some (name f),
                      tp_size = Some (int (length (bytes f))),
                      tp_transferred = int (length (bytes f)), tp_status = completed,
                      tp_direction = receive, tp_error = None\<rparr>)"
    using rc(1,2,8) by (simp add: Let_def receiving_def)
  with s w bd cc show ?thesis by blast
qed

lemma connected_to_ok:
  "node_ready (connected_to p)" "import_ok (connected_to p)" "dial_ok (connected_to p)"
  "close_ok (connected_to p)" "\<forall>k. write_ok (connected_to p) k" "\<forall>k. slice_ok (connected_to p) k"
  "\<exists>c \<in> set (connections (connected_to p)). remotePeer c = p"
  by (simp_all add: connected_to_def)

lemma reliable_ok:
  "opfs_available (reliable b) \<longrightarrow> (\<forall>k. opfs_write_ok (reliable b) k) \<and> opfs_finalize_ok (reliable b)"
  "stream_close_ok (reliable b)"
  by (simp_all add: reliable_def)

lemma sample_stringify: "JSON_stringify sample_platform = stringify_ascii"
  by (simp add: sample_platform_def)

theorem send_then_receive_roundtrip_witness:
  "length (JSON_stringify sample_platform ''a.txt'' 3) \<le> 10000 \<and>
   (\<exists>ss. sendFile sample_platform (connected_to ''peer'') ''s1'' \<lparr>name = ''a.txt'', bytes = [1, 2, 3]\<rparr>
            ''peer'' empty_app = (None, ss) \<and>
      (let r = handleIncomingTransfer sample_platform (reliable True) ''r1''
                 (fresh_stream (concat (written ss))) empty_app
       in receivedFiles (rapp r) = [\<lparr>rf_filename = Some ''a.txt'', rf_blob = [1, 2, 3]\<rparr>] \<and>
          incoming (strm r) = [] \<and>
          map_of (transfers (rapp r)) ''r1'' =
            Some \<lparr>tp_id = ''r1'', tp_filename = Some ''a.txt'', tp_size = Some 3,
                  tp_transferred = 3, tp_status = completed, tp_direction = receive,
                  tp_error = None\<rparr>))"
proof -
  let ?f = "\<lparr>name = ''a.txt'', bytes = [1, 2, 3 :: byte]\<rparr>"
  have l3: "length [1, 2, 3 :: byte] = 3" by simp
  have codec: "JSON_parse sample_platform (JSON_stringify sample_platform (name ?f) (length (bytes ?f))) =
                 Parsed \<lparr>meta_filename = Some (name ?f), meta_size = Some (int (length (bytes ?f)))\<rparr>"
    by (simp only: File.select_convs l3 of_nat_numeral sample_stringify sample_parse)
  have sh3: "length (JSON_stringify sample_platform ''a.txt'' 3) \<le> 10000"
    by (simp add: sample_stringify sample_meta_length)
  then have short: "length (JSON_stringify sample_platform (name ?f) (length (bytes ?f))) \<le> 10000"
    by (simp only: File.select_convs l3 sample_stringify)
  from send_then_receive_roundtrip[OF codec short connected_to_ok[of "''peer''"] reliable_ok(1)[of True],
      where sid = "''s1''" and sa = empty_app and rid = "''r1''" and ra = empty_app]
  obtain ss where
    "sendFile sample_platform (connected_to ''peer'') ''s1'' ?f ''peer'' empty_app = (None, ss)"
    "let r = handleIncomingTransfer sample_platform (reliable True) ''r1''
                 (fresh_stream (concat (written ss))) empty_app
       in receivedFiles (rapp r) = [\<lparr>rf_filename = Some ''a.txt'', rf_blob = [1, 2, 3]\<rparr>] \<and>
          incoming (strm r) = [] \<and>
          map_of (transfers (rapp r)) ''r1'' =
            Some \<lparr>tp_id = ''r1'', tp_filename = Some ''a.txt'', tp_size = Some 3,
                  tp_transferred = 3, tp_status = completed, tp_direction = receive,
                  tp_error = None\<rparr>"
    using reliable_ok(2)[of True] by (auto simp: Let_def empty_app_simps)
  with sh3 show ?thesis by blast
qed

text \<open>
  A file whose name has 10000 characters: its metadata is 10024 bytes long, the sender
  sends it without complaint, and the receiver rejects the header although the platform
  would parse the metadata back. Nothing is received.
\<close>

lemma long_meta_length: "length (stringify_ascii long_name 0) = 10024"
  by (simp add: stringify_ascii_def ascii_def long_name_def toString_small)

lemma setUint32_10024: "setUint32 10024 = [0, 0, 39, 40]"
  by (simp add: setUint32_def)

theorem long_filename_not_received:
  "fst (sendFile sample_platform (connected_to ''peer'') ''s1'' \<lparr>name = long_name, bytes = []\<rparr>
          ''peer'' empty_app) = None \<and>
   receivedFiles (rapp (handleIncomingTransfer sample_platform (reliable True) ''r1''
      (fresh_stream (concat (written (snd
         (sendFile sample_platform (connected_to ''peer'') ''s1'' \<lparr>name = long_name, bytes = []\<rparr>
            ''peer'' empty_app)))))
      empty_app)) = [] \<and>
   map_of (transfers (rapp (handleIncomingTransfer sample_platform (reliable True) ''r1''
      (fresh_stream (concat (written (snd
         (sendFile sample_platform (connected_to ''peer'') ''s1'' \<lparr>name = long_name, bytes = []\<rparr>
            ''peer'' empty_app)))))
      empty_app))) ''r1'' = Some (failed ''r1'' (InvalidMetadataLength 10024))"
proof -
  let ?f = "\<lparr>name = long_name, bytes = [] :: byte list\<rparr>"
  from sendFile_wire[OF connected_to_ok[of "''peer''"], where P = sample_platform and tid = "''s1''"
      and f = ?f and a = empty_app]
  obtain ss where
    s: "sendFile sample_platform (connected_to ''peer'') ''s1'' ?f ''peer'' empty_app = (None, ss)"
    and w: "written ss = [[0, 0, 39, 40], stringify_ascii long_name 0]"
    by (auto simp: sample_stringify long_meta_length setUint32_10024 chunked_Nil)
  have i: "incoming (fresh_stream (concat (written ss))) =
             0 # 0 # 39 # 40 # stringify_ascii long_name 0"
    by (simp add: w fresh_stream_def)
  have g: "getUint32 [0, 0, 39, 40] = 10024" by (simp add: getUint32_def)
  then have "getUint32 [0, 0, 39, 40] > 10000" by simp
  note r = handleIncomingTransfer_header_fails[OF readHeader_oversized[OF i this],
      where P = sample_platform and env = "reliable True" and tid = "''r1''" and a = empty_app]
  show ?thesis
    by (simp add: s r g set_entry_simps update_conv' start_def empty_app_simps)
qed

subsection \<open>Running the receiver on a concrete stream\<close>

lemma receiveLoop_memory_turn:
  "remaining s > 0 \<Longrightarrow>
   nat (min (remaining s) (int CHUNK_SIZE)) \<le> length (incoming (strm s)) \<Longrightarrow> \<not> w \<Longrightarrow>
   receiveLoop env tid msize w s =
     receiveLoop env tid msize w
       (s\<lparr>strm := (strm s)\<lparr>incoming := drop (nat (min (remaining s) (int CHUNK_SIZE))) (incoming (strm s)),
                            read_requests := read_requests (strm s) @
                              [nat (min (remaining s) (int CHUNK_SIZE))]\<rparr>,
          chunks := chunks s @ [take (nat (min (remaining s) (int CHUNK_SIZE))) (incoming (strm s))],
          remaining := remaining s - min (remaining s) (int CHUNK_SIZE),
          rapp := assign_if_present tid
                    (\<lambda>t. t\<lparr>tp_transferred := msize - (remaining s - min (remaining s) (int CHUNK_SIZE))\<rparr>)
                    (rapp s)\<rparr>)"
proof -
  assume pos: "remaining s > 0" and en: "nat (min (remaining s) (int CHUNK_SIZE)) \<le> length (incoming (strm s))"
    and w: "\<not> w"
  let ?n = "nat (min (remaining s) (int CHUNK_SIZE))"
  have rd: "read ?n (strm s) =
              (Inr (take ?n (incoming (strm s))),
               (strm s)\<lparr>incoming := drop ?n (incoming (strm s)),
                        read_requests := read_requests (strm s) @ [?n]\<rparr>)"
    using en by (simp add: read_def)
  have l: "int (length (take ?n (incoming (strm s)))) = min (remaining s) (int CHUNK_SIZE)"
    using en pos by (simp add: CHUNK_SIZE_def)
  show ?thesis
    unfolding receiveLoop_memory[OF pos rd w] l ..
qed

lemma receiveLoop_eof_turn:
  "remaining s > 0 \<Longrightarrow>
   \<not> nat (min (remaining s) (int CHUNK_SIZE)) \<le> length (incoming (strm s)) \<Longrightarrow>
   receiveLoop env tid msize w s =
     (Some UnexpectedEOF,
      s\<lparr>strm := (strm s)\<lparr>incoming := [],
                           read_requests := read_requests (strm s) @
                             [nat (min (remaining s) (int CHUNK_SIZE))]\<rparr>\<rparr>)"
  by (rule receiveLoop_eof) (simp_all add: read_def)

lemma sample_parse_65537:
  "JSON_parse sample_platform (stringify_ascii ''a.txt'' 65537) =
     Parsed \<lparr>meta_filename = Some ''a.txt'', meta_size = Some 65537\<rparr>"
  by (simp add: sample_platform_def parse_table_def stringify_ascii_def ascii_def
        toString_small toString_large digit_simps)

lemma sample_meta_65537_length: "length (stringify_ascii ''a.txt'' 65537) = 33"
  by (simp add: stringify_ascii_def ascii_def toString_small toString_large)

text \<open>
  A sender that announces 65537 bytes and disappears after 65536: the receiver records
  the first chunk (\<open>transferred = 65536\<close>) and then, on the error, replaces the entry by
  one with \<open>transferred = 0\<close> (and \<open>size = 0\<close>).
\<close>

theorem transferred_reset_on_error:
  "map (tp_transferred \<circ> snd)
     (updates_since empty_app
        (rapp (handleIncomingTransfer sample_platform (reliable False) ''r1''
                 (fresh_stream (setUint32 33 @ stringify_ascii ''a.txt'' 65537 @ replicate 65536 0))
                 empty_app))) = [0, 65536, 0]"
proof -
  let ?st = "fresh_stream (setUint32 33 @ stringify_ascii ''a.txt'' 65537 @ replicate 65536 0)"
  have "incoming ?st = setUint32 (length (stringify_ascii ''a.txt'' 65537)) @
          stringify_ascii ''a.txt'' 65537 @ replicate 65536 0"
    by (simp add: fresh_stream_def sample_meta_65537_length)
  from readHeader_wellformed[OF this, of sample_platform]
  have hd: "readHeader sample_platform ?st =
              (Inr \<lparr>meta_filename = Some ''a.txt'', meta_size = Some 65537\<rparr>,
               \<lparr>incoming = replicate 65536 0, read_requests = [4, 33], close_calls = 0\<rparr>)"
    by (simp add: sample_parse_65537 sample_meta_65537_length fresh_stream_def)
  show ?thesis
    unfolding handleIncomingTransfer_header_ok[OF hd]
    by (simp add: receiveBody_def Let_def start_def reliable_def empty_app_def set_entry_def
          receiving_def failed_def updates_since_def assign_if_present_def CHUNK_SIZE_def
          receiveLoop_memory_turn receiveLoop_eof_turn)
qed

subsection \<open>Progress within bounds\<close>

lemma last_greatest: "sorted (x # vs) \<Longrightarrow> v \<in> set (x # vs) \<Longrightarrow> v \<le> last (x # vs)"
proof (induction vs arbitrary: x)
  case Nil
  then show ?case by simp
next
  case (Cons y ys)
  from Cons.prems have "sorted (y # ys)" "x \<le> y" by simp_all
  from Cons.IH[OF this(1)] Cons.prems \<open>x \<le> y\<close> show ?case by auto
qed

lemma sorted_with_last: "sorted (x # vs) \<Longrightarrow> sorted (x # vs @ [last (x # vs)])"
proof -
  assume s: "sorted (x # vs)"
  then have "\<forall>v \<in> set (x # vs). v \<le> last (x # vs)" using last_greatest by blast
  with s have "sorted ((x # vs) @ [last (x # vs)])"
    unfolding sorted_append by simp
  then show ?thesis by simp
qed

lemma last_in_range:
  "sorted ((0::int) # vs) \<Longrightarrow> \<forall>v \<in> set vs. v \<le> n \<Longrightarrow> 0 \<le> n \<Longrightarrow>
   0 \<le> last (0 # vs) \<and> last (0 # vs) \<le> n"
  by (cases "vs = []") auto

lemma progress_transferred:
  "map (tp_transferred \<circ> snd) (map (\<lambda>v. (tid, t\<lparr>tp_transferred := v\<rparr>)) vs) = vs"
  by (induction vs) simp_all

lemma sendFile_progress:
  fixes P senv sid f peer sa
  defines "us \<equiv> updates_since sa (sapp (snd (sendFile P senv sid f peer sa)))"
  shows "(\<forall>u \<in> set us. fst u = sid \<and> within_size (snd u)) \<and> sorted (map (tp_transferred \<circ> snd) us)"
proof -
  obtain x ss where run: "sendFile P senv sid f peer sa = (x, ss)"
    by (cases "sendFile P senv sid f peer sa")
  let ?S = "sending sid f"
  let ?T = "(sending sid f)\<lparr>tp_status := transferring\<rparr>"
  let ?n = "int (length (bytes f))"
  have S: "within_size (?S\<lparr>tp_status := s, tp_error := e\<rparr>)" "within_size ?S"
    "tp_transferred (?S\<lparr>tp_status := s, tp_error := e\<rparr>) = 0" "tp_transferred ?S = 0" for s e
    by (simp_all add: within_size_def sending_def)
  have T: "within_size (?T\<lparr>tp_transferred := v\<rparr>)" "within_size (?T\<lparr>tp_transferred := v, tp_status := s\<rparr>)"
    "within_size (?T\<lparr>tp_transferred := v, tp_status := s, tp_error := e\<rparr>)"
    if "0 \<le> v" "v \<le> ?n" for v s e
    using that by (simp_all add: within_size_def sending_def)
  from sendFile_writes[OF run]
  consider (none) "history (sapp ss) = history sa"
    | (early) e where "history (sapp ss) =
         history sa @ [(sid, ?S), (sid, ?S\<lparr>tp_status := error, tp_error := Some e\<rparr>)]"
    | (sent) vs fin where "history (sapp ss) =
         history sa @ (sid, ?S) # (sid, ?T) #
           map (\<lambda>v. (sid, ?T\<lparr>tp_transferred := v\<rparr>)) vs @ [(sid, fin)]"
        "sorted (0 # vs)" "\<forall>v \<in> set vs. v \<le> ?n"
        "fin = ?T\<lparr>tp_transferred := last (0 # vs), tp_status := completed\<rparr> \<or>
         (\<exists>e. fin = ?T\<lparr>tp_transferred := last (0 # vs), tp_status := error, tp_error := Some e\<rparr>)"
    by blast
  then show ?thesis
  proof cases
    case none
    then have "us = []" by (simp add: us_def run updates_since_def)
    then show ?thesis by simp
  next
    case early
    from updates_sinceI[OF early] have "us = [(sid, ?S), (sid, ?S\<lparr>tp_status := error, tp_error := Some e\<rparr>)]"
      by (simp add: us_def run)
    then show ?thesis using S by simp
  next
    case sent
    define lv where "lv = last (0 # vs)"
    from last_in_range[OF sent(2,3)] have lv: "0 \<le> lv" "lv \<le> ?n" by (simp_all add: lv_def)
    from sent(2) have vs0: "\<forall>v \<in> set vs. 0 \<le> v" by simp
    have us: "us = (sid, ?S) # (sid, ?T) # map (\<lambda>v. (sid, ?T\<lparr>tp_transferred := v\<rparr>)) vs @ [(sid, fin)]"
      using updates_sinceI[OF sent(1)] by (simp add: us_def run)
    from sent(4)[folded lv_def] have fin: "within_size fin" "tp_transferred fin = lv"
      using T(2,3)[OF lv] by auto
    have T0: "within_size ?T" "tp_transferred ?T = 0"
      by (simp_all add: within_size_def sending_def)
    have tr: "map (tp_transferred \<circ> snd) us = 0 # 0 # vs @ [lv]"
      unfolding us using fin(2) S(4) T0(2) by (simp add: comp_def)
    have "sorted (0 # vs @ [lv])" using sorted_with_last[OF sent(2)] by (simp add: lv_def)
    then have so: "sorted (map (tp_transferred \<circ> snd) us)" unfolding tr by simp
    have "\<forall>u \<in> set us. fst u = sid \<and> within_size (snd u)"
      unfolding us using S(2) T0(1) fin(1) T(1) vs0 sent(3) by auto
    with so show ?thesis by simp
  qed
qed

lemma handleIncomingTransfer_progress:
  fixes P renv rid st ra
  defines "us \<equiv> updates_since ra (rapp (handleIncomingTransfer P renv rid st ra))"
  shows "(\<forall>u \<in> set us. fst u = rid) \<and>
         sorted (map (tp_transferred \<circ> snd) (filter (\<lambda>u. tp_status (snd u) \<noteq> error) us)) \<and>
         ((\<forall>m st1. readHeader P st = (Inr m, st1) \<longrightarrow> (\<exists>n. meta_size m = Some n \<and> 0 \<le> n)) \<longrightarrow>
            (\<forall>u \<in> set us. within_size (snd u)))"
proof -
  define r where "r = handleIncomingTransfer P renv rid st ra"
  have F: "within_size (failed rid e)" "tp_status (failed rid e) = error" for e
    by (simp_all add: within_size_def failed_def)
  from handleIncomingTransfer_writes[where P = P and st = st and tid = rid and env = renv and a = ra]
  consider (header) e where "history (rapp r) = history ra @ [(rid, failed rid e)]"
    | (body) m st1 vs fin where "readHeader P st = (Inr m, st1)"
      "history (rapp r) =
         history ra @ (rid, receiving rid m) #
           map (\<lambda>v. (rid, (receiving rid m)\<lparr>tp_transferred := v\<rparr>)) vs @ map (Pair rid) fin"
      "sorted (0 # vs)" "\<forall>v \<in> set vs. \<exists>n. meta_size m = Some n \<and> v \<le> n"
      "(\<exists>e. fin = [failed rid e]) \<or>
       fin = [(receiving rid m)\<lparr>tp_transferred := last (0 # vs), tp_status := completed\<rparr>] \<or>
       fin = [(receiving rid m)\<lparr>tp_transferred := last (0 # vs), tp_status := completed\<rparr>,
               failed rid StreamError]"
    unfolding r_def by blast
  then show ?thesis
  proof cases
    case header
    from updates_sinceI[OF header] have "us = [(rid, failed rid e)]" by (simp add: us_def r_def)
    then show ?thesis using F by simp
  next
    case body
    let ?R = "receiving rid m"
    define lv where "lv = last (0 # vs)"
    let ?done = "?R\<lparr>tp_transferred := lv, tp_status := completed\<rparr>"
    let ?run = "map (\<lambda>v. (rid, ?R\<lparr>tp_transferred := v\<rparr>)) vs"
    have us: "us = (rid, ?R) # ?run @ map (Pair rid) fin"
      using updates_sinceI[OF body(2)] by (simp add: us_def r_def)
    have keep: "filter (\<lambda>u. tp_status (snd u) \<noteq> error) ((rid, ?R) # ?run) = (rid, ?R) # ?run"
      by (simp add: receiving_def)
    have trun: "map (tp_transferred \<circ> snd) ((rid, ?R) # ?run) = 0 # vs"
      by (simp add: comp_def receiving_def)
    from body(5)[folded lv_def] consider "\<exists>e. fin = [failed rid e]" | "fin = [?done]"
      | "fin = [?done, failed rid StreamError]"
      by blast
    note fincases = this
    define X where "X = map (tp_transferred \<circ> snd)
                          (filter (\<lambda>u. tp_status (snd u) \<noteq> error) (map (Pair rid) fin))"
    from fincases have fl: "X = [] \<or> X = [lv]"
      by cases (auto simp: F X_def)
    have "us = ((rid, ?R) # ?run) @ map (Pair rid) fin" using us by simp
    then have "filter (\<lambda>u. tp_status (snd u) \<noteq> error) us =
                 filter (\<lambda>u. tp_status (snd u) \<noteq> error) ((rid, ?R) # ?run) @
                 filter (\<lambda>u. tp_status (snd u) \<noteq> error) (map (Pair rid) fin)"
      by (simp only: filter_append)
    then have "map (tp_transferred \<circ> snd) (filter (\<lambda>u. tp_status (snd u) \<noteq> error) us) =
                 map (tp_transferred \<circ> snd) ((rid, ?R) # ?run) @ X"
      unfolding keep X_def by (simp only: map_append)
    then have tr: "map (tp_transferred \<circ> snd) (filter (\<lambda>u. tp_status (snd u) \<noteq> error) us) =
                 (0 # vs) @ X"
      unfolding trun .
    have "sorted ((0 # vs) @ [lv])" using sorted_with_last[OF body(3)] by (simp add: lv_def)
    moreover have "sorted ((0 # vs) @ [])" using body(3) by simp
    ultimately have "sorted ((0 # vs) @ X)" using fl by blast
    then have so: "sorted (map (tp_transferred \<circ> snd) (filter (\<lambda>u. tp_status (snd u) \<noteq> error) us))"
      unfolding tr .
    have keys: "\<forall>u \<in> set us. fst u = rid" unfolding us by auto
    have ws: "\<forall>u \<in> set us. within_size (snd u)"
      if "\<forall>m st1. readHeader P st = (Inr m, st1) \<longrightarrow> (\<exists>n. meta_size m = Some n \<and> 0 \<le> n)"
    proof -
      from that body(1) obtain n where n: "meta_size m = Some n" "0 \<le> n" by blast
      from body(4) n have le: "\<forall>v \<in> set vs. v \<le> n" by auto
      from body(3) have ge: "\<forall>v \<in> set vs. 0 \<le> v" by simp
      from last_in_range[OF body(3) le n(2)] have lv: "0 \<le> lv" "lv \<le> n" by (simp_all add: lv_def)
      have R: "within_size ?R" "\<forall>v \<in> set vs. within_size (?R\<lparr>tp_transferred := v\<rparr>)" "within_size ?done"
        using n le ge lv by (simp_all add: within_size_def receiving_def)
      from body(5)[folded lv_def] have "\<forall>u \<in> set fin. within_size u"
        using F(1) R(3) by auto
      with R show ?thesis unfolding us by auto
    qed
    from keys so ws show ?thesis by blast
  qed
qed

text \<open>
  Claim C1, as the code has it. In a send session every registry write has
  \<open>0 \<le> transferred \<le> size\<close> and \<open>transferred\<close> never decreases, the error write
  included. In a receive session \<open>transferred\<close> never decreases over the writes made
  while the transfer runs and completes; the write made on error replaces the entry by a
  new one with \<open>size = 0\<close> and \<open>transferred = 0\<close>. Every write of a receive session has
  \<open>0 \<le> transferred \<le> size\<close> when the announced size is a non-negative integer.
\<close>

theorem transferred_within_size_and_monotone:
  "(let us = updates_since sa (sapp (snd (sendFile P senv sid f peer sa)))
    in (\<forall>u \<in> set us. fst u = sid \<and> within_size (snd u)) \<and>
       sorted (map (tp_transferred \<circ> snd) us)) \<and>
   (let us = updates_since ra (rapp (handleIncomingTransfer P renv rid st ra))
    in (\<forall>u \<in> set us. fst u = rid) \<and>
       sorted (map (tp_transferred \<circ> snd) (filter (\<lambda>u. tp_status (snd u) \<noteq> error) us)) \<and>
       ((\<forall>m st1. readHeader P st = (Inr m, st1) \<longrightarrow> (\<exists>n. meta_size m = Some n \<and> 0 \<le> n)) \<longrightarrow>
          (\<forall>u \<in> set us. within_size (snd u))))"
  using sendFile_progress[where P = P and senv = senv and sid = sid and f = f and peer = peer and sa = sa]
    handleIncomingTransfer_progress[where P = P and renv = renv and rid = rid and st = st and ra = ra]
  by (simp add: Let_def)

lemma sample_header:
  "readHeader sample_platform (fresh_stream (setUint32 29 @ stringify_ascii ''a.txt'' 3 @ payload)) =
     (Inr \<lparr>meta_filename = Some ''a.txt'', meta_size = Some 3\<rparr>,
      \<lparr>incoming = payload, read_requests = [4, 29], close_calls = 0\<rparr>)"
proof -
  have "incoming (fresh_stream (setUint32 29 @ stringify_ascii ''a.txt'' 3 @ payload)) =
          setUint32 (length (stringify_ascii ''a.txt'' 3)) @ stringify_ascii ''a.txt'' 3 @ payload"
    by (simp add: fresh_stream_def sample_meta_length)
  from readHeader_wellformed[OF this, of sample_platform]
  show ?thesis by (simp add: sample_parse sample_meta_length fresh_stream_def)
qed

theorem transferred_within_size_and_monotone_witness:
  "readHeader sample_platform (fresh_stream (setUint32 29 @ stringify_ascii ''a.txt'' 3 @ [1, 2, 3])) =
     (Inr \<lparr>meta_filename = Some ''a.txt'', meta_size = Some 3\<rparr>,
      \<lparr>incoming = [1, 2, 3], read_requests = [4, 29], close_calls = 0\<rparr>) \<and>
   list_all (within_size \<circ> snd)
     (updates_since empty_app
        (rapp (handleIncomingTransfer sample_platform (reliable False) ''r1''
                 (fresh_stream (setUint32 29 @ stringify_ascii ''a.txt'' 3 @ [1, 2, 3])) empty_app))) \<and>
   list_all (within_size \<circ> snd)
     (updates_since empty_app
        (sapp (snd (sendFile sample_platform (connected_to ''peer'') ''s1''
                      \<lparr>name = ''a.txt'', bytes = [1, 2, 3]\<rparr> ''peer'' empty_app)))) \<and>
   sorted (map (tp_transferred \<circ> snd)
     (updates_since empty_app
        (sapp (snd (sendFile sample_platform (connected_to ''peer'') ''s1''
                      \<lparr>name = ''a.txt'', bytes = [1, 2, 3]\<rparr> ''peer'' empty_app)))))"
proof -
  let ?st = "fresh_stream (setUint32 29 @ stringify_ascii ''a.txt'' 3 @ [1, 2, 3])"
  note hd = sample_header[of "[1, 2, 3]"]
  have size: "\<forall>m st1. readHeader sample_platform ?st = (Inr m, st1) \<longrightarrow>
                (\<exists>n. meta_size m = Some n \<and> 0 \<le> n)"
    unfolding hd by auto
  from transferred_within_size_and_monotone[where P = sample_platform and renv = "reliable False"
      and rid = "''r1''" and st = ?st and ra = empty_app and senv = "connected_to ''peer''"
      and sid = "''s1''" and f = "\<lparr>name = ''a.txt'', bytes = [1, 2, 3]\<rparr>" and peer = "''peer''"
      and sa = empty_app] size hd
  show ?thesis by (simp add: Let_def list_all_iff)
qed

subsection \<open>The lifecycle of the status\<close>

lemma remdups_adj_run:
  "remdups_adj (replicate (Suc k) x @ y # ys) =
     (if x = y then remdups_adj (y # ys) else x # remdups_adj (y # ys))"
  by (induction k) auto

lemma lifecycle_forms:
  "lifecycle []" "lifecycle [error]" "lifecycle [pending, error]"
  "lifecycle (replicate (Suc k) transferring @ [error])"
  "lifecycle (replicate (Suc k) transferring @ [completed])"
  "lifecycle (pending # replicate (Suc k) transferring @ [error])"
  "lifecycle (pending # replicate (Suc k) transferring @ [completed])"
  "\<not> lifecycle (replicate (Suc k) transferring @ [completed, error])"
  unfolding lifecycle_def
  by (simp_all add: remdups_adj_run del: replicate_Suc replicate.simps)
    (simp_all add: remdups_adj_run[of k, simplified])

lemma sendFile_statuses:
  fixes P senv sid f peer sa
  defines "ss \<equiv> map (tp_status \<circ> snd) (updates_since sa (sapp (snd (sendFile P senv sid f peer sa))))"
  shows "ss = [] \<or> ss = [pending, error] \<or>
         (\<exists>k. ss = pending # replicate (Suc k) transferring @ [completed] \<or>
              ss = pending # replicate (Suc k) transferring @ [error])"
proof -
  obtain x r where run: "sendFile P senv sid f peer sa = (x, r)"
    by (cases "sendFile P senv sid f peer sa")
  let ?S = "sending sid f"
  let ?T = "(sending sid f)\<lparr>tp_status := transferring\<rparr>"
  from sendFile_writes[OF run]
  consider (none) "history (sapp r) = history sa"
    | (early) e where "history (sapp r) =
         history sa @ [(sid, ?S), (sid, ?S\<lparr>tp_status := error, tp_error := Some e\<rparr>)]"
    | (sent) vs fin where "history (sapp r) =
         history sa @ (sid, ?S) # (sid, ?T) #
           map (\<lambda>v. (sid, ?T\<lparr>tp_transferred := v\<rparr>)) vs @ [(sid, fin)]"
        "tp_status fin = completed \<or> tp_status fin = error"
    by fastforce
  then show ?thesis
  proof cases
    case none
    then show ?thesis by (simp add: ss_def run updates_since_def)
  next
    case early
    from updates_sinceI[OF early] show ?thesis by (simp add: ss_def run sending_def)
  next
    case sent
    have "ss = pending # transferring # replicate (length vs) transferring @ [tp_status fin]"
      using updates_sinceI[OF sent(1)]
      by (simp add: ss_def run sending_def comp_def map_replicate_const)
    with sent(2) show ?thesis by auto
  qed
qed

text \<open>
  Claim C4, as the code has it. A send session is created \<open>pending\<close> and moves forward
  only: to \<open>transferring\<close> and then \<open>completed\<close> or \<open>error\<close>, or from \<open>pending\<close>
  straight to \<open>error\<close>. A receive session is never \<open>pending\<close>: its entry is created
  \<open>transferring\<close> once the header has been decoded, or directly as \<open>error\<close> when the
  header fails; it ends \<open>completed\<close> or \<open>error\<close>, and it moves forward only as long as
  \<^verbatim>\<open>stream.close()\<close> does not fail.
\<close>

theorem status_moves_forward:
  "(let ss = map (tp_status \<circ> snd) (updates_since sa (sapp (snd (sendFile P senv sid f peer sa))))
    in lifecycle ss \<and> (ss \<noteq> [] \<longrightarrow> hd ss = pending \<and> last ss \<in> {completed, error})) \<and>
   (let ss = map (tp_status \<circ> snd) (updates_since ra (rapp (handleIncomingTransfer P renv rid st ra)))
    in ss \<noteq> [] \<and> pending \<notin> set ss \<and> last ss \<in> {completed, error} \<and>
       (if \<exists>m st1. readHeader P st = (Inr m, st1) then hd ss = transferring else ss = [error]) \<and>
       (stream_close_ok renv \<longrightarrow> lifecycle ss))"
proof -
  define ss where "ss = map (tp_status \<circ> snd) (updates_since sa (sapp (snd (sendFile P senv sid f peer sa))))"
  define rs where "rs = map (tp_status \<circ> snd) (updates_since ra (rapp (handleIncomingTransfer P renv rid st ra)))"
  from sendFile_statuses[where P = P and senv = senv and sid = sid and f = f and peer = peer and sa = sa]
  consider "ss = []" | "ss = [pending, error]"
    | k where "ss = pending # replicate (Suc k) transferring @ [completed]"
    | k where "ss = pending # replicate (Suc k) transferring @ [error]"
    unfolding ss_def by auto
  then have s: "lifecycle ss \<and> (ss \<noteq> [] \<longrightarrow> hd ss = pending \<and> last ss \<in> {completed, error})"
    by cases (simp_all only: lifecycle_forms, simp_all)
  from handleIncomingTransfer_statuses[where P = P and env = renv and tid = rid and st = st and a = ra]
  consider (h) "rs = [error]" "\<exists>e st1. readHeader P st = (Inl e, st1)"
    | (e) k where "rs = replicate (Suc k) transferring @ [error]" "\<exists>m st1. readHeader P st = (Inr m, st1)"
    | (c) k where "rs = replicate (Suc k) transferring @ [completed]" "\<exists>m st1. readHeader P st = (Inr m, st1)"
    | (ce) k where "rs = replicate (Suc k) transferring @ [completed, error]" "\<not> stream_close_ok renv"
        "\<exists>m st1. readHeader P st = (Inr m, st1)"
    unfolding rs_def by auto
  then have r: "rs \<noteq> [] \<and> pending \<notin> set rs \<and> last rs \<in> {completed, error} \<and>
       (if \<exists>m st1. readHeader P st = (Inr m, st1) then hd rs = transferring else rs = [error]) \<and>
       (stream_close_ok renv \<longrightarrow> lifecycle rs)"
  proof cases
    case h
    then have "\<not> (\<exists>m st1. readHeader P st = (Inr m, st1))" by auto
    with h(1) show ?thesis by (simp add: lifecycle_forms)
  next
    case e
    with lifecycle_forms(4)[of k] show ?thesis by simp
  next
    case c
    with lifecycle_forms(5)[of k] show ?thesis by simp
  next
    case ce
    then show ?thesis by simp
  qed
  from s r show ?thesis unfolding ss_def rs_def Let_def by blast
qed

lemma receiveLoop_opfs_turn:
  assumes "remaining s > 0"
    and "nat (min (remaining s) (int CHUNK_SIZE)) \<le> length (incoming (strm s))"
    and "w" and "opfs_write_ok env (opfs_writes s)"
  shows "receiveLoop env tid msize w s =
     receiveLoop env tid msize w
       (s\<lparr>strm := (strm s)\<lparr>incoming := drop (nat (min (remaining s) (int CHUNK_SIZE))) (incoming (strm s)),
                            read_requests := read_requests (strm s) @
                              [nat (min (remaining s) (int CHUNK_SIZE))]\<rparr>,
          file_bytes := file_bytes s @ take (nat (min (remaining s) (int CHUNK_SIZE))) (incoming (strm s)),
          opfs_writes := Suc (opfs_writes s),
          remaining := remaining s - min (remaining s) (int CHUNK_SIZE),
          rapp := assign_if_present tid
                    (\<lambda>t. t\<lparr>tp_transferred := msize - (remaining s - min (remaining s) (int CHUNK_SIZE))\<rparr>)
                    (rapp s)\<rparr>)"
proof -
  let ?n = "nat (min (remaining s) (int CHUNK_SIZE))"
  have rd: "read ?n (strm s) =
              (Inr (take ?n (incoming (strm s))),
               (strm s)\<lparr>incoming := drop ?n (incoming (strm s)),
                        read_requests := read_requests (strm s) @ [?n]\<rparr>)"
    using assms(2) by (simp add: read_def)
  have l: "int (length (take ?n (incoming (strm s)))) = min (remaining s) (int CHUNK_SIZE)"
    using assms(1,2) by (simp add: CHUNK_SIZE_def)
  show ?thesis
    unfolding receiveLoop_opfs[OF assms(1) rd assms(3,4)] l ..
qed

lemma sample_receive_history:
  "map snd (updates_since empty_app
      (rapp (handleIncomingTransfer sample_platform (reliable False) ''r1''
               (fresh_stream (setUint32 29 @ stringify_ascii ''a.txt'' 3 @ [1, 2, 3])) empty_app))) =
     [receiving ''r1'' \<lparr>meta_filename = Some ''a.txt'', meta_size = Some 3\<rparr>,
      (receiving ''r1'' \<lparr>meta_filename = Some ''a.txt'', meta_size = Some 3\<rparr>)\<lparr>tp_transferred := 3\<rparr>,
      (receiving ''r1'' \<lparr>meta_filename = Some ''a.txt'', meta_size = Some 3\<rparr>)
        \<lparr>tp_transferred := 3, tp_status := completed\<rparr>]"
  unfolding handleIncomingTransfer_header_ok[OF sample_header]
  by (simp add: receiveBody_def Let_def start_def reliable_def empty_app_def set_entry_def
        receiving_def updates_since_def assign_if_present_def assign_def finalize_def
        CHUNK_SIZE_def receiveLoop_memory_turn receiveLoop_stop)

lemma sample_send_history:
  "map snd (updates_since empty_app
      (sapp (snd (sendFile sample_platform (connected_to ''peer'') ''s1''
                    \<lparr>name = ''a.txt'', bytes = [1, 2, 3]\<rparr> ''peer'' empty_app)))) =
     [sending ''s1'' \<lparr>name = ''a.txt'', bytes = [1, 2, 3]\<rparr>,
      (sending ''s1'' \<lparr>name = ''a.txt'', bytes = [1, 2, 3]\<rparr>)\<lparr>tp_status := transferring\<rparr>,
      (sending ''s1'' \<lparr>name = ''a.txt'', bytes = [1, 2, 3]\<rparr>)
        \<lparr>tp_status := transferring, tp_transferred := 3\<rparr>,
      (sending ''s1'' \<lparr>name = ''a.txt'', bytes = [1, 2, 3]\<rparr>)
        \<lparr>tp_status := completed, tp_transferred := 3\<rparr>]"
  by (simp add: sendFile_def sendTry_def sendPayload_def stream_write_def Let_def
        connected_to_def empty_app_def set_entry_def sending_def updates_since_def
        assign_if_present_def assign_def CHUNK_SIZE_def sendLoop_turn sendLoop_stop)

theorem status_moves_forward_witness:
  "stream_close_ok (reliable False) \<and>
   map (tp_status \<circ> snd) (updates_since empty_app
      (sapp (snd (sendFile sample_platform (connected_to ''peer'') ''s1''
                    \<lparr>name = ''a.txt'', bytes = [1, 2, 3]\<rparr> ''peer'' empty_app)))) =
     [pending, transferring, transferring, completed] \<and>
   lifecycle [pending, transferring, transferring, completed] \<and>
   map (tp_status \<circ> snd) (updates_since empty_app
      (rapp (handleIncomingTransfer sample_platform (reliable False) ''r1''
               (fresh_stream (setUint32 29 @ stringify_ascii ''a.txt'' 3 @ [1, 2, 3])) empty_app))) =
     [transferring, transferring, completed] \<and>
   lifecycle [transferring, transferring, completed]"
proof -
  let ?send = "updates_since empty_app
      (sapp (snd (sendFile sample_platform (connected_to ''peer'') ''s1''
                    \<lparr>name = ''a.txt'', bytes = [1, 2, 3]\<rparr> ''peer'' empty_app)))"
  let ?recv = "updates_since empty_app
      (rapp (handleIncomingTransfer sample_platform (reliable False) ''r1''
               (fresh_stream (setUint32 29 @ stringify_ascii ''a.txt'' 3 @ [1, 2, 3])) empty_app))"
  have s: "map (tp_status \<circ> snd) ?send = [pending, transferring, transferring, completed]"
    using arg_cong[OF sample_send_history, of "map tp_status"]
    by (simp add: sending_def)
  have r: "map (tp_status \<circ> snd) ?recv = [transferring, transferring, completed]"
    using arg_cong[OF sample_receive_history, of "map tp_status"]
    by (simp add: receiving_def)
  have c: "stream_close_ok (reliable False)" by (simp add: reliable_def)
  from status_moves_forward[where P = sample_platform and senv = "connected_to ''peer''"
      and sid = "''s1''" and f = "\<lparr>name = ''a.txt'', bytes = [1, 2, 3]\<rparr>" and peer = "''peer''"
      and sa = empty_app and renv = "reliable False" and rid = "''r1''"
      and st = "fresh_stream (setUint32 29 @ stringify_ascii ''a.txt'' 3 @ [1, 2, 3])"
      and ra = empty_app]
  show ?thesis unfolding Let_def s r using c by simp
qed

text \<open>
  A complete inbound transfer of three bytes: the first status recorded for the session is
  \<open>transferring\<close>; the session is never recorded as \<open>pending\<close>.
\<close>

theorem receive_session_never_pending:
  "map (tp_status \<circ> snd) (updates_since empty_app
      (rapp (handleIncomingTransfer sample_platform (reliable True) ''r1''
               (fresh_stream (setUint32 29 @ stringify_ascii ''a.txt'' 3 @ [1, 2, 3])) empty_app))) =
     [transferring, transferring, completed]"
  unfolding handleIncomingTransfer_header_ok[OF sample_header]
  by (simp add: receiveBody_def Let_def start_def empty_app_def set_entry_def
        receiving_def updates_since_def assign_if_present_def assign_def finalize_def
        CHUNK_SIZE_def receiveLoop_opfs_turn receiveLoop_stop reliable_def)

subsection \<open>One handler, one session\<close>

lemma keys_set_entry:
  "map fst (transfers (set_entry tid e a)) =
     (if tid \<in> set (map fst (transfers a)) then map fst (transfers a)
      else map fst (transfers a) @ [tid])"
  by (simp add: set_entry_def update_keys)

lemma receiveBody_keys:
  assumes "receiveBody env tid m s = (x, s')"
  shows "map fst (transfers (rapp s')) = map fst (transfers (set_entry tid (receiving tid m) (rapp s))) \<and>
         (\<exists>t. map_of (transfers (rapp s')) tid = Some t)"
proof -
  let ?w = "opfs_available env"
  let ?s2 = "s\<lparr>rapp := set_entry tid (receiving tid m) (rapp s),
               opfs_acquisitions := Suc (opfs_acquisitions s)\<rparr>"
  obtain y s3 where lp: "(case meta_size m of
              None \<Rightarrow> (None, ?s2)
            | Some n \<Rightarrow> receiveLoop env tid n ?w (?s2\<lparr>remaining := n\<rparr>)) = (y, s3)"
    by (cases "case meta_size m of
              None \<Rightarrow> (None, ?s2)
            | Some n \<Rightarrow> receiveLoop env tid n ?w (?s2\<lparr>remaining := n\<rparr>)")
  have body: "(x, s') = (case y of Some e \<Rightarrow> (Some e, s3) | None \<Rightarrow> finalize env tid m ?w s3)"
    using assms lp by (auto simp: receiveBody_def Let_def split: option.splits)
  have "map_of (transfers (rapp ?s2)) tid = Some (receiving tid m)"
    by (simp add: map_of_set_entry)
  from receiveBody_loop[OF lp this] obtain t3 where
    m3: "map_of (transfers (rapp s3)) tid = Some t3" and
    k3: "map fst (transfers (rapp s3)) = map fst (transfers (set_entry tid (receiving tid m) (rapp s)))"
    by auto
  show ?thesis
  proof (cases y)
    case (Some e)
    with body m3 k3 show ?thesis by simp
  next
    case None
    with body have fz: "finalize env tid m ?w s3 = (x, s')" by simp
    from finalize_cases[OF m3 fz] m3 k3 keys_set_entry_present[OF m3] show ?thesis
      by (auto simp: map_of_set_entry set_entry_simps update_conv')
  qed
qed

lemma handleIncomingTransfer_keys:
  "map fst (transfers (rapp (handleIncomingTransfer P env tid st a))) =
     (if tid \<in> set (map fst (transfers a)) then map fst (transfers a)
      else map fst (transfers a) @ [tid])"
proof -
  obtain h st1 where hd: "readHeader P st = (h, st1)" by (cases "readHeader P st")
  show ?thesis
  proof (cases h)
    case (Inl e)
    with hd have "readHeader P st = (Inl e, st1)" by simp
    from handleIncomingTransfer_header_fails[OF this] show ?thesis
      by (simp add: keys_set_entry)
  next
    case (Inr m)
    with hd have h: "readHeader P st = (Inr m, st1)" by simp
    obtain x s' where b: "receiveBody env tid m ((start st a)\<lparr>strm := st1\<rparr>) = (x, s')"
      by (cases "receiveBody env tid m ((start st a)\<lparr>strm := st1\<rparr>)")
    from receiveBody_keys[OF b] obtain t where
      k: "map fst (transfers (rapp s')) = map fst (transfers (set_entry tid (receiving tid m) a))"
      and m: "map_of (transfers (rapp s')) tid = Some t"
      by (auto simp: start_def)
    show ?thesis
      unfolding handleIncomingTransfer_header_ok[OF h] b
      using k keys_set_entry_present[OF m] by (cases x) (simp_all add: keys_set_entry)
  qed
qed

lemma registerProtocol_first:
  "registerProtocol (False, n) =
     (healthy n,
      n\<lparr>handlers := removeAll FILE_TRANSFER_PROTOCOL (handlers n) @
                       (if healthy n then [FILE_TRANSFER_PROTOCOL] else [])\<rparr>)"
  by (simp add: registerProtocol_def unhandle_def handle_def)

lemma registerProtocol_again: "registerProtocol (True, n) = (True, n)"
  by (simp add: registerProtocol_def)

lemma registerProtocol_twice:
  "registerProtocol (registerProtocol (b, n)) = registerProtocol (b, n)"
  by (cases b; cases "healthy n") (simp_all add: registerProtocol_first registerProtocol_again)

lemma registerProtocol_repeated:
  "0 < k \<Longrightarrow> (registerProtocol ^^ k) (False, n) = registerProtocol (False, n)"
proof (induction k)
  case 0
  then show ?case by simp
next
  case (Suc k)
  show ?case
  proof (cases "k = 0")
    case True
    then show ?thesis by simp
  next
    case False
    with Suc.IH have "(registerProtocol ^^ k) (False, n) = registerProtocol (False, n)" by simp
    then show ?thesis by (simp add: registerProtocol_twice)
  qed
qed

lemma deliver_skip:
  "FILE_TRANSFER_PROTOCOL \<notin> set hs \<Longrightarrow> deliver P env tids st (hs @ hs') a = deliver P env tids st hs' a"
proof (induction hs)
  case Nil
  then show ?case by simp
next
  case (Cons h hs)
  then show ?case by (cases tids) auto
qed

lemma deliver_single:
  "deliver P env (tid # tids) st (removeAll FILE_TRANSFER_PROTOCOL hs @ [FILE_TRANSFER_PROTOCOL]) a =
     rapp (handleIncomingTransfer P env tid st a)"
proof -
  have "FILE_TRANSFER_PROTOCOL \<notin> set (removeAll FILE_TRANSFER_PROTOCOL hs)" by simp
  from deliver_skip[OF this] show ?thesis by (cases tids) simp_all
qed

lemma count_after_removeAll: "count_list (removeAll x xs @ [x]) x = 1"
  by (induction xs) simp_all

lemma count_after_removeAll_none: "count_list (removeAll x xs) x = 0"
  by (induction xs) simp_all

text \<open>
  Claim C8. Calling \<^verbatim>\<open>registerProtocol\<close> again changes nothing. After any number of
  calls, on a node with any handlers registered before, there is never more than one
  handler for the protocol, and exactly one when the node accepts the registration
  (whether or not the node itself rejects a second handler); so an inbound stream
  delivered after two registrations runs \<^verbatim>\<open>handleIncomingTransfer\<close> once and adds exactly
  one session to the registry.
\<close>

theorem registerProtocol_idempotent:
  "registerProtocol (registerProtocol (b, n)) = registerProtocol (b, n) \<and>
   (0 < k \<longrightarrow> (registerProtocol ^^ k) (False, n) = registerProtocol (False, n)) \<and>
   fst (registerProtocol (False, n)) = healthy n \<and>
   count_list (handlers (snd (registerProtocol (False, n)))) FILE_TRANSFER_PROTOCOL =
     (if healthy n then 1 else 0) \<and>
   (healthy n \<and> tid \<notin> set (map fst (transfers a)) \<longrightarrow>
      map fst (transfers (deliver P env (tid # tids) st
                 (handlers (snd (registerProtocol (registerProtocol (False, n))))) a)) =
        map fst (transfers a) @ [tid])"
proof -
  have d: "map fst (transfers (deliver P env (tid # tids) st
                 (handlers (snd (registerProtocol (registerProtocol (False, n))))) a)) =
        map fst (transfers a) @ [tid]" if "healthy n" "tid \<notin> set (map fst (transfers a))"
    using that
    by (simp add: registerProtocol_first registerProtocol_again deliver_single
          handleIncomingTransfer_keys del: set_map)
  have c: "count_list (handlers (snd (registerProtocol (False, n)))) FILE_TRANSFER_PROTOCOL =
             (if healthy n then 1 else 0)"
    using count_after_removeAll[of FILE_TRANSFER_PROTOCOL "handlers n"]
    by (simp add: registerProtocol_first count_after_removeAll_none)
  have f: "fst (registerProtocol (False, n)) = healthy n"
    by (simp add: registerProtocol_first)
  from d c f registerProtocol_repeated[of k n] registerProtocol_twice[of b n] show ?thesis
    by blast
qed

theorem registerProtocol_idempotent_witness:
  "(registerProtocol ^^ 2)
      (False, \<lparr>strict = False, healthy = True,
               handlers = [FILE_TRANSFER_PROTOCOL, ''/ipfs/ping/1.0.0'', FILE_TRANSFER_PROTOCOL]\<rparr>) =
     (True, \<lparr>strict = False, healthy = True,
             handlers = [''/ipfs/ping/1.0.0'', FILE_TRANSFER_PROTOCOL]\<rparr>) \<and>
   ''r1'' \<notin> set (map fst (transfers empty_app)) \<and>
   map fst (transfers (deliver sample_platform (reliable True) [''r1'', ''r2'']
       (fresh_stream (setUint32 29 @ stringify_ascii ''a.txt'' 3 @ [1, 2, 3]))
       (handlers (snd (registerProtocol (registerProtocol
          (False, \<lparr>strict = False, healthy = True,
                   handlers = [FILE_TRANSFER_PROTOCOL, ''/ipfs/ping/1.0.0'', FILE_TRANSFER_PROTOCOL]\<rparr>)))))
       empty_app)) = [''r1'']"
proof -
  let ?n = "\<lparr>strict = False, healthy = True,
             handlers = [FILE_TRANSFER_PROTOCOL, ''/ipfs/ping/1.0.0'', FILE_TRANSFER_PROTOCOL]\<rparr>"
  have k: "0 < (2::nat)" by simp
  have f: "''r1'' \<notin> set (map fst (transfers empty_app))" by (simp add: empty_app_simps)
  have h: "healthy ?n" by simp
  have o: "''/ipfs/ping/1.0.0'' \<noteq> FILE_TRANSFER_PROTOCOL" by (simp add: FILE_TRANSFER_PROTOCOL_def)
  have r: "registerProtocol (False, ?n) =
             (True, \<lparr>strict = False, healthy = True,
                     handlers = [''/ipfs/ping/1.0.0'', FILE_TRANSFER_PROTOCOL]\<rparr>)"
    using o by (simp add: registerProtocol_first)
  from registerProtocol_idempotent[where k = 2 and n = ?n and tid = "''r1''" and a = empty_app
      and tids = "[''r2'']" and P = sample_platform and env = "reliable True" and b = False
      and st = "fresh_stream (setUint32 29 @ stringify_ascii ''a.txt'' 3 @ [1, 2, 3])"] k f h
  show ?thesis unfolding r by (simp add: empty_app_simps registerProtocol_again)
qed

end
